theory Spec2Isabelle
  imports Main
begin

section \<open>The cache of go-mcache: index, expiry queue and timer\<close>

text \<open>
  The Go program keeps a map from keys to values, a doubly linked queue of items ordered by
  expiration time, and one timer goroutine that sleeps until the head of the queue expires.
  The queue is built from heap objects linked by pointers, so the model has an explicit
  store: an address is a natural number, a pointer is an address or nil (\<open>None\<close>), and
  the store is a total function from addresses to items (a Go pointer that is not nil
  always points to an object; an address that no allocation has returned yet holds an
  item that nothing reads). \<open>time.Time\<close> and \<open>time.Duration\<close> are integers
  (nanoseconds, without the saturation of \<open>Add\<close> at the ends of the range); the current
  time \<open>time.Now()\<close> is an argument of each operation that reads the clock.
\<close>

subsection \<open>Data\<close>

type_synonym addr = nat

record 'k item =
  Prev :: "addr option"
  Next :: "addr option"
  Key :: 'k
  Expires :: int

text \<open>
  Only \<open>Set\<close> and \<open>Swap\<close> store a \<open>valuePtr\<close>: \<open>Set\<close> with the address of the item
  it has just allocated, \<open>Swap\<close> with the pointer it has just read from the map. A stored
  \<open>Ptr\<close> is therefore an address.
\<close>

record 'v valuePtr =
  Value :: 'v
  Ptr :: addr

text \<open>
  \<open>heap\<close> holds the items, \<open>fresh\<close> is the address the next allocation returns.
  \<open>timer\<close> is the scheduler: the deadline of the ticker goroutine that is parked on its
  \<open>select\<close>, or \<open>None\<close> when no ticker is parked. The mutex is not modelled: every
  operation runs from \<open>Lock\<close> to \<open>Unlock\<close> without interleaving, and a ticker that
  \<open>setTimer\<close> starts is parked before the next operation begins, so that the send on
  \<open>stop\<close> reaches it.
\<close>

record ('k, 'v) Cache =
  cache :: "'k \<rightharpoonup> 'v valuePtr"
  head :: "addr option"
  tail :: "addr option"
  heap :: "addr \<Rightarrow> 'k item"
  fresh :: addr
  timer :: "int option"

text \<open>
  An operation that dereferences a nil pointer panics; the panic leaves the cache as it was
  at that moment, so a panic carries the state.
\<close>

datatype ('a, 's) outcome = Panic 's | Return 'a 's

definition New :: "('k, 'v) Cache" where
  "New = \<lparr>cache = Map.empty, head = None, tail = None,
          heap = (\<lambda>_. \<lparr>Prev = None, Next = None, Key = undefined, Expires = 0\<rparr>),
          fresh = 0, timer = None\<rparr>"

subsection \<open>Field assignments through a pointer\<close>

definition set_Prev :: "addr \<Rightarrow> addr option \<Rightarrow> ('k, 'v) Cache \<Rightarrow> ('k, 'v) Cache" where
  "set_Prev a p c = c\<lparr>heap := (heap c)(a := (heap c a)\<lparr>Prev := p\<rparr>)\<rparr>"

definition set_Next :: "addr \<Rightarrow> addr option \<Rightarrow> ('k, 'v) Cache \<Rightarrow> ('k, 'v) Cache" where
  "set_Next a p c = c\<lparr>heap := (heap c)(a := (heap c a)\<lparr>Next := p\<rparr>)\<rparr>"

definition set_Expires :: "addr \<Rightarrow> int \<Rightarrow> ('k, 'v) Cache \<Rightarrow> ('k, 'v) Cache" where
  "set_Expires a e c = c\<lparr>heap := (heap c)(a := (heap c a)\<lparr>Expires := e\<rparr>)\<rparr>"

subsection \<open>The queue: remove, insertBefore, insertAfter\<close>

text \<open>
  The three queue functions dereference their arguments in their first statement, before
  any assignment; they take addresses, and a caller that would pass nil panics instead.
\<close>

definition remove :: "addr \<Rightarrow> ('k, 'v) Cache \<Rightarrow> addr option \<times> ('k, 'v) Cache" where
  "remove n c =
     (let c1 = (case Prev (heap c n) of
                  None \<Rightarrow> c\<lparr>head := Next (heap c n)\<rparr>
                | Some p \<Rightarrow> set_Next p (Next (heap c n)) c);
          (r, c2) = (case Next (heap c1 n) of
                  None \<Rightarrow> (Prev (heap c1 n), c1\<lparr>tail := Prev (heap c1 n)\<rparr>)
                | Some q \<Rightarrow> (Next (heap c1 n), set_Prev q (Prev (heap c1 n)) c1))
      in (r, set_Next n None (set_Prev n None c2)))"

definition insertBefore :: "addr \<Rightarrow> addr \<Rightarrow> ('k, 'v) Cache \<Rightarrow> ('k, 'v) Cache" where
  "insertBefore n p c =
     (let c1 = (case Prev (heap c p) of
                  None \<Rightarrow> c\<lparr>head := Some n\<rparr>
                | Some q \<Rightarrow> set_Next q (Some n) c);
          c2 = set_Prev n (Prev (heap c1 p)) c1;
          c3 = set_Next n (Some p) c2
      in set_Prev p (Some n) c3)"

definition insertAfter :: "addr \<Rightarrow> addr \<Rightarrow> ('k, 'v) Cache \<Rightarrow> ('k, 'v) Cache" where
  "insertAfter n p c =
     (let c1 = (case Next (heap c p) of
                  None \<Rightarrow> c\<lparr>tail := Some n\<rparr>
                | Some q \<Rightarrow> set_Prev q (Some n) c);
          c2 = set_Next n (Next (heap c1 p)) c1;
          c3 = set_Prev n (Some p) c2
      in set_Next p (Some n) c3)"

subsection \<open>The scheduler: setTimer\<close>

text \<open>
  \<open>setTimer\<close> first cancels the parked ticker (the non-blocking send on \<open>stop\<close>), then
  reads \<open>c.head.Expires\<close> and starts a ticker that sleeps until that time.
\<close>

definition setTimer :: "('k, 'v) Cache \<Rightarrow> (unit, ('k, 'v) Cache) outcome" where
  "setTimer c =
     (let c1 = c\<lparr>timer := None\<rparr>
      in case head c1 of
           None \<Rightarrow> Panic c1
         | Some h \<Rightarrow> Return () (c1\<lparr>timer := Some (Expires (heap c1 h))\<rparr>))"

subsection \<open>delete\<close>

definition delete :: "'k \<Rightarrow> ('k, 'v) Cache \<Rightarrow> bool \<times> ('k, 'v) Cache" where
  "delete key c =
     (if head c = None then (False, c)
      else case cache c key of
             None \<Rightarrow> (False, c)
           | Some v \<Rightarrow>
               (let (r, c1) = remove (Ptr v) c
                in (True, c1\<lparr>cache := (cache c1)(key := None)\<rparr>)))"

subsection \<open>Set\<close>

text \<open>
  The scan of \<open>Set\<close> walks from the tail towards the head. On a queue whose links form a
  cycle it would not return, so the loop is a partial function and \<open>None\<close> means that it
  runs forever.
\<close>

partial_function (option) Set_scan ::
  "addr \<Rightarrow> addr option \<Rightarrow> ('k, 'v) Cache \<Rightarrow> (unit, ('k, 'v) Cache) outcome option" where
  "Set_scan i n c =
     (case n of
        None \<Rightarrow> Some (Panic c)
      | Some a \<Rightarrow>
          if Expires (heap c a) < Expires (heap c i) then Some (Return () (insertAfter i a c))
          else if Prev (heap c a) = None then Some (setTimer (insertBefore i a c))
          else Set_scan i (Prev (heap c a)) c)"

definition Set ::
  "'k \<Rightarrow> 'v \<Rightarrow> int \<Rightarrow> int \<Rightarrow> ('k, 'v) Cache \<Rightarrow> (unit, ('k, 'v) Cache) outcome option" where
  "Set key val ttl now c =
     (let c1 = (if cache c key \<noteq> None then snd (delete key c) else c);
          i = fresh c1;
          c2 = c1\<lparr>heap := (heap c1)(i := \<lparr>Prev = None, Next = None, Key = key,
                                           Expires = now + ttl\<rparr>),
                  fresh := Suc i\<rparr>;
          c3 = c2\<lparr>cache := (cache c2)(key \<mapsto> \<lparr>Value = val, Ptr = i\<rparr>)\<rparr>
      in if head c3 = None then Some (setTimer (c3\<lparr>head := Some i, tail := Some i\<rparr>))
         else Set_scan i (tail c3) c3)"

subsection \<open>Get, Swap, Delete, GetAndDelete, Update\<close>

definition Get :: "'k \<Rightarrow> ('k, 'v::zero) Cache \<Rightarrow> 'v \<times> bool" where
  "Get key c = (case cache c key of None \<Rightarrow> (0, False) | Some v \<Rightarrow> (Value v, True))"

definition Swap :: "'k \<Rightarrow> 'v \<Rightarrow> ('k, 'v) Cache \<Rightarrow> ('v \<times> bool) \<times> ('k, 'v) Cache" where
  "Swap key val c =
     (case cache c key of
        None \<Rightarrow> ((val, False), c)
      | Some v \<Rightarrow>
          (let oldValue = Value v
           in ((oldValue, True), c\<lparr>cache := (cache c)(key \<mapsto> \<lparr>Value = val, Ptr = Ptr v\<rparr>)\<rparr>)))"

definition Delete :: "'k \<Rightarrow> ('k, 'v) Cache \<Rightarrow> (bool, ('k, 'v) Cache) outcome" where
  "Delete key c =
     (let timerResetNeeded = (case head c of None \<Rightarrow> False | Some h \<Rightarrow> Key (heap c h) = key);
          (ok, c1) = delete key c
      in if head c1 \<noteq> None \<and> timerResetNeeded
         then (case setTimer c1 of Panic s \<Rightarrow> Panic s | Return u c2 \<Rightarrow> Return ok c2)
         else Return ok c1)"

definition GetAndDelete :: "'k \<Rightarrow> ('k, 'v::zero) Cache \<Rightarrow> ('v \<times> bool) \<times> ('k, 'v) Cache" where
  "GetAndDelete key c =
     (case cache c key of
        None \<Rightarrow> ((0, False), c)
      | Some v \<Rightarrow> ((Value v, True), snd (delete key c)))"

text \<open>
  \<open>Update\<close> reads the map entry into the local variable \<open>v\<close> (a struct, copied by
  value), assigns to the field of that copy and returns; it never writes the map.
\<close>

definition Update :: "'k \<Rightarrow> 'v \<Rightarrow> ('k, 'v) Cache \<Rightarrow> bool \<times> ('k, 'v) Cache" where
  "Update key val c =
     (case cache c key of
        None \<Rightarrow> (False, c)
      | Some v \<Rightarrow> (let v = v\<lparr>Value := val\<rparr> in (True, c)))"

subsection \<open>Refresh\<close>

text \<open>
  \<open>Refresh\<close> takes the node out of the queue and walks from \<open>start\<close>, the neighbour
  that \<open>remove\<close> returned, towards the tail or towards the head. Both loops read
  \<open>n.Expires\<close> first, so a nil \<open>start\<close> panics.
\<close>

partial_function (option) Refresh_tailwards ::
  "int \<Rightarrow> addr \<Rightarrow> addr option \<Rightarrow> ('k, 'v) Cache \<Rightarrow> (unit, ('k, 'v) Cache) outcome option" where
  "Refresh_tailwards expires p n c =
     (case n of
        None \<Rightarrow> Some (Panic c)
      | Some a \<Rightarrow>
          if expires < Expires (heap c a) then Some (Return () (insertBefore p a c))
          else if Next (heap c a) = None then Some (Return () (insertAfter p a c))
          else Refresh_tailwards expires p (Next (heap c a)) c)"

partial_function (option) Refresh_headwards ::
  "int \<Rightarrow> addr \<Rightarrow> addr option \<Rightarrow> ('k, 'v) Cache \<Rightarrow> (unit, ('k, 'v) Cache) outcome option" where
  "Refresh_headwards expires p n c =
     (case n of
        None \<Rightarrow> Some (Panic c)
      | Some a \<Rightarrow>
          if Expires (heap c a) < expires then Some (Return () (insertAfter p a c))
          else if Prev (heap c a) = None then Some (Return () (insertBefore p a c))
          else Refresh_headwards expires p (Prev (heap c a)) c)"

text \<open>
  After the loop: \<open>v.Ptr.Expires = expires\<close>, then the test
  \<open>wasFirst || c.head.Key == key\<close>, which reads \<open>c.head\<close> only when \<open>wasFirst\<close> is false.
\<close>

definition Refresh_finish ::
  "'k \<Rightarrow> addr \<Rightarrow> int \<Rightarrow> bool \<Rightarrow> ('k, 'v) Cache \<Rightarrow> (bool, ('k, 'v) Cache) outcome" where
  "Refresh_finish key p expires wasFirst c =
     (let c1 = set_Expires p expires c
      in if wasFirst
         then (case setTimer c1 of Panic s \<Rightarrow> Panic s | Return u c2 \<Rightarrow> Return True c2)
         else (case head c1 of
                 None \<Rightarrow> Panic c1
               | Some h \<Rightarrow>
                   if Key (heap c1 h) = key
                   then (case setTimer c1 of Panic s \<Rightarrow> Panic s | Return u c2 \<Rightarrow> Return True c2)
                   else Return True c1))"

definition Refresh ::
  "'k \<Rightarrow> int \<Rightarrow> int \<Rightarrow> ('k, 'v) Cache \<Rightarrow> (bool, ('k, 'v) Cache) outcome option" where
  "Refresh key ttl now c =
     (case cache c key of
        None \<Rightarrow> Some (Return False c)
      | Some v \<Rightarrow>
          (let expires = now + ttl
           in case head c of
                None \<Rightarrow> Some (Panic c)
              | Some h \<Rightarrow>
                  (let wasFirst = (Key (heap c h) = key);
                       (start, c1) = remove (Ptr v) c
                   in case (if Expires (heap c1 (Ptr v)) < expires
                            then Refresh_tailwards expires (Ptr v) start c1
                            else Refresh_headwards expires (Ptr v) start c1) of
                        None \<Rightarrow> None
                      | Some (Panic s) \<Rightarrow> Some (Panic s)
                      | Some (Return u c2) \<Rightarrow>
                          Some (Refresh_finish key (Ptr v) expires wasFirst c2))))"

subsection \<open>Evict\<close>

text \<open>
  The loop of \<open>Evict\<close> counts \<open>evicted\<close> up to \<open>n\<close>; Go's \<open>int\<close> is 64 bits, and
  \<open>evicted < n\<close> holds before each increment, so the counter never wraps.
\<close>

function Evict_loop :: "int \<Rightarrow> int \<Rightarrow> ('k, 'v) Cache \<Rightarrow> int \<times> ('k, 'v) Cache" where
  "Evict_loop n evicted c =
     (if evicted < n
      then (case head c of
              None \<Rightarrow> (evicted, c)
            | Some h \<Rightarrow>
                (let (ok, c1) = delete (Key (heap c h)) c
                 in if ok then Evict_loop n (evicted + 1) c1 else (evicted, c1)))
      else (evicted, c))"
  by pat_completeness auto
termination
  by (relation "measure (\<lambda>(n, evicted, c). nat (n - evicted))") auto

declare Evict_loop.simps [simp del]

definition Evict :: "int \<Rightarrow> ('k, 'v) Cache \<Rightarrow> (int, ('k, 'v) Cache) outcome" where
  "Evict n c =
     (let (evicted, c1) = Evict_loop n 0 c
      in if 0 < evicted \<and> head c1 \<noteq> None
         then (case setTimer c1 of Panic s \<Rightarrow> Panic s | Return u c2 \<Rightarrow> Return evicted c2)
         else Return evicted c1)"

subsection \<open>Range and Len\<close>

text \<open>
  \<open>Range\<close> first copies the keys of the queue, head to tail, into a slice. The callback
  may itself call operations of the cache, so it is a function on the cache; \<open>Range\<close>
  returns the list of the pairs it passed to the callback, in order, and the cache the
  callbacks left.
\<close>

partial_function (option) Range_keys ::
  "'k list \<Rightarrow> addr option \<Rightarrow> ('k, 'v) Cache \<Rightarrow> 'k list option" where
  "Range_keys keys n c =
     (case n of
        None \<Rightarrow> Some keys
      | Some a \<Rightarrow> Range_keys (keys @ [Key (heap c a)]) (Next (heap c a)) c)"

fun Range_visit ::
  "('k \<Rightarrow> 'v \<Rightarrow> ('k, 'v) Cache \<Rightarrow> bool \<times> ('k, 'v) Cache) \<Rightarrow> 'k list \<Rightarrow> ('k, 'v::zero) Cache
     \<Rightarrow> ('k \<times> 'v) list \<times> ('k, 'v) Cache" where
  "Range_visit fn [] c = ([], c)"
| "Range_visit fn (k # keys) c =
     (let val = (case cache c k of None \<Rightarrow> 0 | Some v \<Rightarrow> Value v);
          (continue, c1) = fn k val c
      in if \<not> continue then ([(k, val)], c1)
         else (let (calls, c2) = Range_visit fn keys c1 in ((k, val) # calls, c2)))"

definition Range ::
  "('k \<Rightarrow> 'v \<Rightarrow> ('k, 'v) Cache \<Rightarrow> bool \<times> ('k, 'v) Cache) \<Rightarrow> ('k, 'v::zero) Cache
     \<Rightarrow> (('k \<times> 'v) list \<times> ('k, 'v) Cache) option" where
  "Range fn c =
     (case Range_keys [] (head c) c of
        None \<Rightarrow> None
      | Some keys \<Rightarrow> Some (Range_visit fn keys c))"

definition Len :: "('k, 'v) Cache \<Rightarrow> nat" where
  "Len c = card (dom (cache c))"

subsection \<open>The ticker goroutine\<close>

text \<open>
  \<open>ticker now\<close> is the parked ticker observed at time \<open>now\<close>: before its deadline it
  stays parked; from the deadline on its timer has fired, and it removes the head of the queue
  from the map and from the queue and starts the next ticker when an item remains.
\<close>

definition ticker :: "int \<Rightarrow> ('k, 'v) Cache \<Rightarrow> (unit, ('k, 'v) Cache) outcome" where
  "ticker now c =
     (case timer c of
        None \<Rightarrow> Return () c
      | Some d \<Rightarrow>
          if now < d then Return () c
          else (let c0 = c\<lparr>timer := None\<rparr>;
                    c1 = (case head c0 of
                            None \<Rightarrow> c0
                          | Some h \<Rightarrow>
                              snd (remove h (c0\<lparr>cache := (cache c0)(Key (heap c0 h) := None)\<rparr>)))
                in if head c1 \<noteq> None then setTimer c1 else Return () c1))"

subsection \<open>Sequences of operations\<close>

text \<open>
  The operations that write the cache, and the ticker, as one datatype; \<open>exec now x c\<close>
  runs the operation \<open>x\<close> at time \<open>now\<close> and keeps the state it leaves, \<open>run\<close> runs a
  list of operations, each with the time of its call, and stops at the first one that
  panics or does not return. \<open>Get\<close>, \<open>Len\<close> and \<open>Range\<close> write nothing.
\<close>

datatype ('k, 'v) op =
    OpSet 'k 'v int
  | OpSwap 'k 'v
  | OpDelete 'k
  | OpGetAndDelete 'k
  | OpUpdate 'k 'v
  | OpRefresh 'k int
  | OpEvict int
  | OpTicker

fun is_Set :: "('k, 'v) op \<Rightarrow> bool" where
  "is_Set (OpSet k v ttl) = True"
| "is_Set x = False"

fun discard :: "('a, 's) outcome \<Rightarrow> (unit, 's) outcome" where
  "discard (Panic s) = Panic s"
| "discard (Return r s) = Return () s"

fun exec ::
  "int \<Rightarrow> ('k, 'v::zero) op \<Rightarrow> ('k, 'v) Cache \<Rightarrow> (unit, ('k, 'v) Cache) outcome option" where
  "exec now (OpSet key val ttl) c = Set key val ttl now c"
| "exec now (OpSwap key val) c = Some (Return () (snd (Swap key val c)))"
| "exec now (OpDelete key) c = Some (discard (Delete key c))"
| "exec now (OpGetAndDelete key) c = Some (Return () (snd (GetAndDelete key c)))"
| "exec now (OpUpdate key val) c = Some (Return () (snd (Update key val c)))"
| "exec now (OpRefresh key ttl) c = map_option discard (Refresh key ttl now c)"
| "exec now (OpEvict n) c = Some (discard (Evict n c))"
| "exec now OpTicker c = Some (ticker now c)"

fun run ::
  "(int \<times> ('k, 'v::zero) op) list \<Rightarrow> ('k, 'v) Cache \<Rightarrow> (unit, ('k, 'v) Cache) outcome option" where
  "run [] c = Some (Return () c)"
| "run ((now, x) # xs) c =
     (case exec now x c of
        None \<Rightarrow> None
      | Some (Panic s) \<Rightarrow> Some (Panic s)
      | Some (Return u c') \<Rightarrow> run xs c')"

section \<open>The invariants of the data model\<close>

text \<open>
  The queue is described by the list of the addresses of its nodes, from head to tail.
  \<open>first_or as n\<close> is the first address of \<open>as\<close>, or \<open>n\<close> when there is none;
  \<open>last_or as p\<close> is the last one, or \<open>p\<close>. \<open>seg h p as n\<close> says that the nodes
  \<open>as\<close> are linked in this order in the heap \<open>h\<close>, the first one pointing back to
  \<open>p\<close> and the last one pointing on to \<open>n\<close>.
\<close>

fun first_or :: "addr list \<Rightarrow> addr option \<Rightarrow> addr option" where
  "first_or [] n = n"
| "first_or (a # as) n = Some a"

fun last_or :: "addr list \<Rightarrow> addr option \<Rightarrow> addr option" where
  "last_or [] p = p"
| "last_or (a # as) p = last_or as (Some a)"

fun seg :: "(addr \<Rightarrow> 'k item) \<Rightarrow> addr option \<Rightarrow> addr list \<Rightarrow> addr option \<Rightarrow> bool" where
  "seg h p [] n = True"
| "seg h p (a # as) n = (Prev (h a) = p \<and> Next (h a) = first_or as n \<and> seg h (Some a) as n)"

text \<open>
  \<open>queue c as\<close>: walking from \<open>c.head\<close> along \<open>Next\<close> visits exactly \<open>as\<close> and ends
  at nil, walking from \<open>c.tail\<close> along \<open>Prev\<close> visits them in reverse, and no node
  occurs twice.
\<close>

definition queue :: "('k, 'v) Cache \<Rightarrow> addr list \<Rightarrow> bool" where
  "queue c as =
     (distinct as \<and> head c = first_or as None \<and> tail c = last_or as None
      \<and> seg (heap c) None as None)"

text \<open>
  \<open>index_ok c as\<close>: the pointer of every entry of the map is a node of the queue that
  carries the entry's key, and every node of the queue is the node of the entry of its key.
\<close>

definition index_ok :: "('k, 'v) Cache \<Rightarrow> addr list \<Rightarrow> bool" where
  "index_ok c as =
     ((\<forall>k v. cache c k = Some v \<longrightarrow> Ptr v \<in> set as \<and> Key (heap c (Ptr v)) = k)
      \<and> (\<forall>a \<in> set as. \<exists>v. cache c (Key (heap c a)) = Some v \<and> Ptr v = a))"

definition expirations :: "('k, 'v) Cache \<Rightarrow> addr list \<Rightarrow> int list" where
  "expirations c as = map (\<lambda>a. Expires (heap c a)) as"

definition queue_keys :: "('k, 'v) Cache \<Rightarrow> addr list \<Rightarrow> 'k list" where
  "queue_keys c as = map (\<lambda>a. Key (heap c a)) as"

text \<open>
  The invariant of the cache: a well-linked queue \<open>as\<close>, an index that matches it,
  expirations that do not decrease from head to tail, and nodes below the allocation
  pointer (the next \<open>&item{...}\<close> is a new object).
\<close>

definition inv :: "('k, 'v) Cache \<Rightarrow> addr list \<Rightarrow> bool" where
  "inv c as =
     (queue c as \<and> index_ok c as \<and> sorted (expirations c as) \<and> (\<forall>a \<in> set as. a < fresh c))"

text \<open>
  The links a node of the list must carry, node by node: \<open>prev_in p as a\<close> is the
  predecessor of \<open>a\<close> in \<open>as\<close> (or \<open>p\<close> for the first node), \<open>next_in n as a\<close> its
  successor (or \<open>n\<close> for the last one).
\<close>

fun prev_in :: "addr option \<Rightarrow> addr list \<Rightarrow> addr \<Rightarrow> addr option" where
  "prev_in p [] a = p"
| "prev_in p (x # xs) a = (if a = x then p else prev_in (Some x) xs a)"

fun next_in :: "addr option \<Rightarrow> addr list \<Rightarrow> addr \<Rightarrow> addr option" where
  "next_in n [] a = n"
| "next_in n (x # xs) a = (if a = x then first_or xs n else next_in n xs a)"

text \<open>
  \<open>continues fn keys c\<close>: the callback \<open>fn\<close>, called by \<open>Range\<close> for \<open>keys\<close> in turn
  starting from the cache \<open>c\<close>, answers true every time, so that \<open>Range\<close> goes on to the
  key after \<open>keys\<close>.
\<close>

fun continues ::
  "('k \<Rightarrow> 'v \<Rightarrow> ('k, 'v) Cache \<Rightarrow> bool \<times> ('k, 'v) Cache) \<Rightarrow> 'k list \<Rightarrow> ('k, 'v::zero) Cache
     \<Rightarrow> bool" where
  "continues fn [] c = True"
| "continues fn (k # keys) c =
     (let val = (case cache c k of None \<Rightarrow> 0 | Some v \<Rightarrow> Value v);
          (continue, c1) = fn k val c
      in continue \<and> continues fn keys c1)"

text \<open>
  The scheduler is aligned when the parked ticker sleeps until the expiration of the head
  of the queue (nothing is asked of an empty queue).
\<close>

definition aligned :: "('k, 'v) Cache \<Rightarrow> bool" where
  "aligned c = (case head c of None \<Rightarrow> True | Some h \<Rightarrow> timer c = Some (Expires (heap c h)))"





section \<open>Concrete runs\<close>

text \<open>
  The states of a cache with keys of type \<open>string\<close> and values of type \<open>int\<close> after
  \<open>c.Set("a", 7, 100)\<close>, and after \<open>c.Set("b", 8, 300)\<close> on top of it, both at time 0.
\<close>

definition one_entry :: "(string, int) Cache" where
  "one_entry =
     \<lparr>cache = [''a'' \<mapsto> \<lparr>Value = 7, Ptr = 0\<rparr>], head = Some 0, tail = Some 0,
      heap = (heap (New :: (string, int) Cache))(0 := \<lparr>Prev = None, Next = None, Key = ''a'', Expires = 100\<rparr>),
      fresh = 1, timer = Some 100\<rparr>"

definition two_entries :: "(string, int) Cache" where
  "two_entries =
     \<lparr>cache = [''a'' \<mapsto> \<lparr>Value = 7, Ptr = 0\<rparr>, ''b'' \<mapsto> \<lparr>Value = 8, Ptr = 1\<rparr>],
      head = Some 0, tail = Some 1,
      heap = (heap (New :: (string, int) Cache))(0 := \<lparr>Prev = None, Next = Some 1, Key = ''a'', Expires = 100\<rparr>,
                        1 := \<lparr>Prev = Some 0, Next = None, Key = ''b'', Expires = 300\<rparr>),
      fresh = 2, timer = Some 100\<rparr>"

text \<open>
  A callback for \<open>Range\<close> that deletes key "b" from the cache while it visits key "a",
  and always asks to go on.
\<close>

definition drop_b :: "string \<Rightarrow> int \<Rightarrow> (string, int) Cache \<Rightarrow> bool \<times> (string, int) Cache" where
  "drop_b k v c = (True, if k = ''a'' then snd (GetAndDelete ''b'' c) else c)"

section \<open>The queue functions on a well-linked queue\<close>

text \<open>
  A list is well linked exactly when each of its nodes carries the links that
  \<open>prev_in\<close> and \<open>next_in\<close> prescribe; in this form the effect of the pointer
  assignments of \<open>remove\<close>, \<open>insertBefore\<close> and \<open>insertAfter\<close> is checked node
  by node.
\<close>


lemma first_or_append: "first_or (xs @ ys) n = first_or xs (first_or ys n)"
  by (cases xs) auto

lemma last_or_append: "last_or (xs @ ys) p = last_or ys (last_or xs p)"
  by (induction xs arbitrary: p) auto

lemma last_or_Some [simp]: "xs \<noteq> [] \<Longrightarrow> last_or xs p = Some (last xs)"
  by (induction xs arbitrary: p) auto

lemma last_or_None [simp]: "last_or xs None = None \<longleftrightarrow> xs = []"
  by (cases "xs = []") auto

lemma first_or_None [simp]: "first_or xs None = None \<longleftrightarrow> xs = []"
  by (cases xs) auto

lemma prev_in_append:
  "prev_in p (xs @ ys) a = (if a \<in> set xs then prev_in p xs a else prev_in (last_or xs p) ys a)"
  by (induction xs arbitrary: p) auto

lemma next_in_append:
  "next_in n (xs @ ys) a = (if a \<in> set xs then next_in (first_or ys n) xs a else next_in n ys a)"
  by (induction xs) (auto simp: first_or_append)

lemma seg_pointwise:
  "distinct as \<Longrightarrow>
   seg h p as n = (\<forall>a \<in> set as. Prev (h a) = prev_in p as a \<and> Next (h a) = next_in n as a)"
  by (induction as arbitrary: p) auto

lemma queue_pointwise:
  "queue c as = (distinct as \<and> head c = first_or as None \<and> tail c = last_or as None
      \<and> (\<forall>a \<in> set as. Prev (heap c a) = prev_in None as a \<and> Next (heap c a) = next_in None as a))"
  using seg_pointwise[of as "heap c" None None] by (auto simp: queue_def)

lemmas link_simps = queue_pointwise remove_def insertBefore_def insertAfter_def set_Prev_def set_Next_def
  prev_in_append next_in_append first_or_append last_or_append

lemma remove_queue:
  assumes "queue c (xs @ a # ys)"
  shows "queue (snd (remove a c)) (xs @ ys)"
  using assms
  by (cases xs rule: rev_cases; cases ys) (auto simp: link_simps split: option.splits)

lemma remove_result:
  assumes "queue c (xs @ a # ys)"
  shows "fst (remove a c) = first_or ys (last_or xs None)"
  using assms
  by (cases xs rule: rev_cases; cases ys) (auto simp: link_simps split: option.splits)

lemma insertBefore_queue:
  assumes "queue c (xs @ p # ys)" "n \<notin> set (xs @ p # ys)"
  shows "queue (insertBefore n p c) (xs @ n # p # ys)"
  using assms
  by (cases xs rule: rev_cases; cases ys) (auto simp: link_simps split: option.splits)

lemma insertAfter_queue:
  assumes "queue c (xs @ p # ys)" "n \<notin> set (xs @ p # ys)"
  shows "queue (insertAfter n p c) (xs @ p # n # ys)"
  using assms
  by (cases xs rule: rev_cases; cases ys) (auto simp: link_simps split: option.splits)

lemma queue_links:
  assumes "queue c (xs @ a # ys)"
  shows "Prev (heap c a) = last_or xs None" "Next (heap c a) = first_or ys None"
  using assms by (auto simp: link_simps)

text \<open>What the queue functions leave alone: the map, the allocator, the timer, and the keys
  and expirations of all nodes.\<close>

lemma remove_frame [simp]:
  "cache (snd (remove a c)) = cache c" "fresh (snd (remove a c)) = fresh c"
  "timer (snd (remove a c)) = timer c"
  "Key (heap (snd (remove a c)) b) = Key (heap c b)"
  "Expires (heap (snd (remove a c)) b) = Expires (heap c b)"
  by (auto simp: remove_def set_Prev_def set_Next_def Let_def split: option.splits prod.splits)

lemma insertBefore_frame [simp]:
  "cache (insertBefore n p c) = cache c" "fresh (insertBefore n p c) = fresh c"
  "timer (insertBefore n p c) = timer c"
  "Key (heap (insertBefore n p c) b) = Key (heap c b)"
  "Expires (heap (insertBefore n p c) b) = Expires (heap c b)"
  by (auto simp: insertBefore_def set_Prev_def set_Next_def Let_def split: option.splits)

lemma insertAfter_frame [simp]:
  "cache (insertAfter n p c) = cache c" "fresh (insertAfter n p c) = fresh c"
  "timer (insertAfter n p c) = timer c"
  "Key (heap (insertAfter n p c) b) = Key (heap c b)"
  "Expires (heap (insertAfter n p c) b) = Expires (heap c b)"
  by (auto simp: insertAfter_def set_Prev_def set_Next_def Let_def split: option.splits)

lemma queue_timer_upd [simp]: "queue (c\<lparr>timer := t\<rparr>) as = queue c as"
  by (simp add: queue_def)

lemma queue_cache_upd [simp]: "queue (c\<lparr>cache := m\<rparr>) as = queue c as"
  by (simp add: queue_def)

lemma queue_fresh_upd [simp]: "queue (c\<lparr>fresh := m\<rparr>) as = queue c as"
  by (simp add: queue_def)

lemma setTimer_head:
  "head c = Some h \<Longrightarrow> setTimer c = Return () (c\<lparr>timer := Some (Expires (heap c h))\<rparr>)"
  by (simp add: setTimer_def)

section \<open>delete on a well-formed cache\<close>


lemma inv_queue: "inv c as \<Longrightarrow> queue c as"
  by (simp add: inv_def)

lemma inv_distinct: "inv c as \<Longrightarrow> distinct as"
  by (simp add: inv_def queue_def)

lemma inv_lookup:
  "inv c as \<Longrightarrow> cache c k = Some v \<Longrightarrow> Ptr v \<in> set as \<and> Key (heap c (Ptr v)) = k"
  by (simp add: inv_def index_ok_def)

lemma inv_node:
  "inv c as \<Longrightarrow> a \<in> set as \<Longrightarrow> \<exists>v. cache c (Key (heap c a)) = Some v \<and> Ptr v = a"
  by (simp add: inv_def index_ok_def)

lemma inv_keys_inj:
  "inv c as \<Longrightarrow> a \<in> set as \<Longrightarrow> b \<in> set as \<Longrightarrow> Key (heap c a) = Key (heap c b) \<Longrightarrow> a = b"
  by (metis inv_node option.inject)

lemma delete_frame [simp]:
  "fresh (snd (delete key c)) = fresh c"
  "timer (snd (delete key c)) = timer c"
  "Key (heap (snd (delete key c)) b) = Key (heap c b)"
  "Expires (heap (snd (delete key c)) b) = Expires (heap c b)"
  by (simp_all add: delete_def case_prod_beta split: option.splits)

lemma delete_absent: "cache c key = None \<Longrightarrow> delete key c = (False, c)"
  by (simp add: delete_def)

lemma delete_present:
  assumes "inv c (xs @ a # ys)" "cache c key = Some v" "Ptr v = a"
  shows "fst (delete key c) = True"
    and "cache (snd (delete key c)) = (cache c)(key := None)"
    and "inv (snd (delete key c)) (xs @ ys)"
proof -
  have q: "queue c (xs @ a # ys)" using assms(1) by (rule inv_queue)
  then have hd: "head c \<noteq> None" by (cases xs) (simp_all add: queue_def)
  have d: "delete key c = (True, (snd (remove a c))\<lparr>cache := (cache c)(key := None)\<rparr>)"
    using hd assms(2,3) by (auto simp: delete_def case_prod_beta)
  show "fst (delete key c) = True" "cache (snd (delete key c)) = (cache c)(key := None)"
    by (simp_all add: d)
  have ka: "Key (heap c a) = key" using inv_lookup[OF assms(1,2)] assms(3) by simp
  have dist: "distinct (xs @ a # ys)" using assms(1) by (rule inv_distinct)
  have "queue (snd (remove a c)) (xs @ ys)" by (rule remove_queue[OF q])
  moreover have "index_ok ((snd (remove a c))\<lparr>cache := (cache c)(key := None)\<rparr>) (xs @ ys)"
    unfolding index_ok_def
  proof (intro conjI allI impI ballI)
    fix k w assume "cache ((snd (remove a c))\<lparr>cache := (cache c)(key := None)\<rparr>) k = Some w"
    then have k: "k \<noteq> key" "cache c k = Some w" by (auto split: if_splits)
    from inv_lookup[OF assms(1) k(2)] k(1) ka
    show "Ptr w \<in> set (xs @ ys)" by auto
    from inv_lookup[OF assms(1) k(2)]
    show "Key (heap ((snd (remove a c))\<lparr>cache := (cache c)(key := None)\<rparr>) (Ptr w)) = k" by simp
  next
    fix b assume b: "b \<in> set (xs @ ys)"
    then have b': "b \<in> set (xs @ a # ys)" "b \<noteq> a" using dist by auto
    from inv_node[OF assms(1) b'(1)] obtain w where w: "cache c (Key (heap c b)) = Some w" "Ptr w = b"
      by blast
    have "Key (heap c b) \<noteq> key" using w assms(2,3) b'(2) by auto
    then show "\<exists>v. cache ((snd (remove a c))\<lparr>cache := (cache c)(key := None)\<rparr>)
              (Key (heap ((snd (remove a c))\<lparr>cache := (cache c)(key := None)\<rparr>) b)) = Some v \<and> Ptr v = b"
      using w by simp
  qed
  moreover have "sorted (expirations ((snd (remove a c))\<lparr>cache := (cache c)(key := None)\<rparr>) (xs @ ys))"
    using assms(1) by (auto simp: inv_def expirations_def sorted_append)
  moreover have "\<forall>b \<in> set (xs @ ys). b < fresh ((snd (remove a c))\<lparr>cache := (cache c)(key := None)\<rparr>)"
    using assms(1) by (auto simp: inv_def)
  ultimately show "inv (snd (delete key c)) (xs @ ys)"
    by (simp add: d inv_def)
qed

section \<open>Set on a well-formed cache\<close>


lemma filter_sorted_below:
  "sorted (map f (xs @ [a])) \<Longrightarrow> f a < (e::int) \<Longrightarrow> filter (\<lambda>b. f b < e) xs = xs \<and> filter (\<lambda>b. \<not> f b < e) xs = []"
  by (induction xs) (auto simp: sorted_append)

lemma Set_scan_queue:
  fixes c :: "('k, 'v) Cache"
  assumes "queue c (xs @ ys)" "xs \<noteq> []" "i \<notin> set (xs @ ys)" "sorted (expirations c xs)"
  defines "e \<equiv> Expires (heap c i)"
  shows "\<exists>c'. Set_scan i (Some (last xs)) c = Some (Return () c')
     \<and> queue c' (filter (\<lambda>b. Expires (heap c b) < e) xs @ i # filter (\<lambda>b. \<not> Expires (heap c b) < e) xs @ ys)
     \<and> cache c' = cache c \<and> fresh c' = fresh c
     \<and> (\<forall>b. Key (heap c' b) = Key (heap c b)) \<and> (\<forall>b. Expires (heap c' b) = Expires (heap c b))
     \<and> timer c' = (if \<exists>b \<in> set xs. Expires (heap c b) < e then timer c else Some e)"
  using assms(1-4)
proof (induction xs arbitrary: ys rule: rev_induct)
  case Nil
  then show ?case by simp
next
  case (snoc a xs)
  have q: "queue c (xs @ a # ys)" using snoc.prems(1) by simp
  have fresh_i: "i \<notin> set (xs @ a # ys)" using snoc.prems(3) by simp
  have prev: "Prev (heap c a) = last_or xs None" by (rule queue_links(1)[OF q])
  show ?case
  proof (cases "Expires (heap c a) < e")
    case True
    have f: "filter (\<lambda>b. Expires (heap c b) < e) xs = xs \<and> filter (\<lambda>b. \<not> Expires (heap c b) < e) xs = []"
      using filter_sorted_below[of "\<lambda>b. Expires (heap c b)" xs a e] snoc.prems(4) True
      by (simp add: expirations_def)
    have "queue (insertAfter i a c) (xs @ a # i # ys)"
      by (rule insertAfter_queue[OF q fresh_i])
    then show ?thesis using True f
      by (subst Set_scan.simps) (auto simp: e_def)
  next
    case False
    show ?thesis
    proof (cases "xs = []")
      case True
      have "queue (insertBefore i a c) ([] @ i # a # ys)"
        by (rule insertBefore_queue) (use q fresh_i True in auto)
      moreover from this have "head (insertBefore i a c) = Some i"
        by (simp add: queue_def)
      ultimately show ?thesis using False True prev
        by (subst Set_scan.simps) (auto simp: e_def setTimer_head)
    next
      case ne: False
      have s: "sorted (expirations c xs)" using snoc.prems(4)
        by (simp add: expirations_def sorted_append)
      from snoc.IH[OF q ne fresh_i s] ne False prev show ?thesis
        by (subst Set_scan.simps) (auto simp: e_def)
    qed
  qed
qed

lemma inv_absent_rest:
  assumes "inv c as" "cache c key = None"
  shows "filter (\<lambda>a. Key (heap c a) \<noteq> key) as = as"
proof -
  have "\<forall>a \<in> set as. Key (heap c a) \<noteq> key"
    using inv_node[OF assms(1)] assms(2) by fastforce
  then show ?thesis by simp
qed

lemma inv_present_rest:
  assumes "inv c (xs @ a # ys)" "cache c key = Some v" "Ptr v = a"
  shows "filter (\<lambda>b. Key (heap c b) \<noteq> key) (xs @ a # ys) = xs @ ys"
proof -
  have ka: "Key (heap c a) = key" using inv_lookup[OF assms(1,2)] assms(3) by simp
  have dist: "distinct (xs @ a # ys)" using assms(1) by (rule inv_distinct)
  have "\<forall>b \<in> set (xs @ ys). Key (heap c b) \<noteq> key"
  proof
    fix b assume "b \<in> set (xs @ ys)"
    then have "b \<in> set (xs @ a # ys)" "b \<noteq> a" using dist by auto
    then show "Key (heap c b) \<noteq> key"
      using inv_keys_inj[OF assms(1), of b a] ka by auto
  qed
  then show ?thesis using ka by simp
qed

text \<open>The first step of Set: the old entry of the key, if any, is gone.\<close>

lemma Set_delete_old:
  fixes key :: 'k and c :: "('k, 'v) Cache"
  assumes "inv c as"
  defines "c1 \<equiv> (if cache c key \<noteq> None then snd (delete key c) else c)"
  shows "inv c1 (filter (\<lambda>a. Key (heap c a) \<noteq> key) as)"
    and "cache c1 = (cache c)(key := None)"
    and "fresh c1 = fresh c" and "timer c1 = timer c"
    and "Key (heap c1 b) = Key (heap c b)" and "Expires (heap c1 b) = Expires (heap c b)"
proof -
  show "fresh c1 = fresh c" "timer c1 = timer c"
    "Key (heap c1 b) = Key (heap c b)" "Expires (heap c1 b) = Expires (heap c b)"
    by (simp_all add: c1_def)
  show "inv c1 (filter (\<lambda>a. Key (heap c a) \<noteq> key) as)"
  proof (cases "cache c key")
    case None
    then show ?thesis using assms(1) inv_absent_rest[OF assms(1) None] by (simp add: c1_def)
  next
    case (Some v)
    then have "Ptr v \<in> set as" using inv_lookup[OF assms(1)] by blast
    then obtain xs ys where as: "as = xs @ Ptr v # ys" by (meson split_list)
    show ?thesis
      using delete_present(3)[OF assms(1)[unfolded as] Some refl]
        inv_present_rest[OF assms(1)[unfolded as] Some refl]
      by (simp add: c1_def Some as)
  qed
  show "cache c1 = (cache c)(key := None)"
  proof (cases "cache c key")
    case None
    then show ?thesis by (auto simp: c1_def)
  next
    case (Some v)
    then have "Ptr v \<in> set as" using inv_lookup[OF assms(1)] by blast
    then obtain xs ys where as: "as = xs @ Ptr v # ys" by (meson split_list)
    show ?thesis
      using delete_present(2)[OF assms(1)[unfolded as] Some refl]
      by (simp add: c1_def Some)
  qed
qed

lemma queue_cong:
  assumes "queue c as" "head c' = head c" "tail c' = tail c"
    "\<forall>a \<in> set as. Prev (heap c' a) = Prev (heap c a) \<and> Next (heap c' a) = Next (heap c a)"
  shows "queue c' as"
  using assms by (simp add: queue_pointwise)

lemma expirations_cong:
  "\<forall>a \<in> set as. Expires (heap c' a) = Expires (heap c a) \<Longrightarrow> expirations c' as = expirations c as"
  by (simp add: expirations_def)

lemma sorted_insert_between:
  fixes f :: "'a \<Rightarrow> int"
  assumes "sorted (map f xs)" "f i = e" "\<forall>b \<in> set xs. g b = f b"
  shows "sorted (map f (filter (\<lambda>b. g b < e) xs @ i # filter (\<lambda>b. \<not> g b < e) xs))"
proof -
  have "filter (\<lambda>b. g b < e) xs = filter (\<lambda>b. f b < e) xs"
    "filter (\<lambda>b. \<not> g b < e) xs = filter (\<lambda>b. \<not> f b < e) xs"
    using assms(3) by (auto intro: filter_cong)
  then show ?thesis
    using assms(1,2) by (auto simp: sorted_append sorted_filter)
qed

lemma Set_inv:
  fixes c :: "('k, 'v) Cache" and key :: 'k and val :: 'v and ttl now :: int
  assumes "inv c as"
  defines "e \<equiv> now + ttl" and "i \<equiv> fresh c"
    and "rest \<equiv> filter (\<lambda>a. Key (heap c a) \<noteq> key) as"
  shows "\<exists>c'. Set key val ttl now c = Some (Return () c')
     \<and> inv c' (filter (\<lambda>b. Expires (heap c b) < e) rest @ i
               # filter (\<lambda>b. \<not> Expires (heap c b) < e) rest)
     \<and> cache c' = (cache c)(key \<mapsto> \<lparr>Value = val, Ptr = i\<rparr>)
     \<and> Key (heap c' i) = key \<and> Expires (heap c' i) = e
     \<and> (\<forall>b. b \<noteq> i \<longrightarrow> Key (heap c' b) = Key (heap c b) \<and> Expires (heap c' b) = Expires (heap c b))
     \<and> fresh c' = Suc i
     \<and> timer c' = (if \<exists>b \<in> set rest. Expires (heap c b) < e then timer c else Some e)"
proof -
  define c1 where "c1 = (if cache c key \<noteq> None then snd (delete key c) else c)"
  define c3 where "c3 = c1\<lparr>heap := (heap c1)(i := \<lparr>Prev = None, Next = None, Key = key, Expires = e\<rparr>),
      fresh := Suc i, cache := (cache c1)(key \<mapsto> \<lparr>Value = val, Ptr = i\<rparr>)\<rparr>"
  note old = Set_delete_old[OF assms(1), of key, folded c1_def rest_def]
  have inv1: "inv c1 rest" by (rule old(1))
  have fr1: "fresh c1 = i" using old(3) by (simp add: i_def)
  have i_new: "i \<notin> set rest" using inv1 fr1 by (auto simp: inv_def)
  have Set_eq: "Set key val ttl now c =
      (if head c3 = None then Some (setTimer (c3\<lparr>head := Some i, tail := Some i\<rparr>))
       else Set_scan i (tail c3) c3)"
    by (simp add: Set_def Let_def c3_def c1_def e_def i_def)
  have c3_simps: "head c3 = head c1" "tail c3 = tail c1" "fresh c3 = Suc i" "timer c3 = timer c"
    "cache c3 = (cache c)(key \<mapsto> \<lparr>Value = val, Ptr = i\<rparr>)"
    "\<And>b. Key (heap c3 b) = (if b = i then key else Key (heap c b))"
    "\<And>b. Expires (heap c3 b) = (if b = i then e else Expires (heap c b))"
    "Prev (heap c3 i) = None" "Next (heap c3 i) = None"
    using old(2-6) by (auto simp: c3_def)
  have q3: "queue c3 rest"
    by (rule queue_cong[OF inv_queue[OF inv1]]) (use i_new in \<open>auto simp: c3_def\<close>)
  have idx: "index_ok c' (filter (\<lambda>b. Expires (heap c b) < e) rest @ i
               # filter (\<lambda>b. \<not> Expires (heap c b) < e) rest)"
    if "cache c' = cache c3" "\<And>b. Key (heap c' b) = Key (heap c3 b)" for c' :: "('k, 'v) Cache"
    unfolding index_ok_def
  proof (intro conjI allI impI ballI)
    fix k w assume kw: "cache c' k = Some w"
    show "Ptr w \<in> set (filter (\<lambda>b. Expires (heap c b) < e) rest @ i
               # filter (\<lambda>b. \<not> Expires (heap c b) < e) rest)"
      using kw that(1) c3_simps(5) inv_lookup[OF inv1, of k w] old(2)
      by (auto split: if_splits)
    show "Key (heap c' (Ptr w)) = k"
      using kw that c3_simps(5,6) inv_lookup[OF inv1, of k w] old(2,5) i_new
      by (auto split: if_splits)
  next
    fix a assume a: "a \<in> set (filter (\<lambda>b. Expires (heap c b) < e) rest @ i
               # filter (\<lambda>b. \<not> Expires (heap c b) < e) rest)"
    show "\<exists>v. cache c' (Key (heap c' a)) = Some v \<and> Ptr v = a"
    proof (cases "a = i")
      case True
      then show ?thesis using that c3_simps(5,6) by simp
    next
      case False
      then have ar: "a \<in> set rest" using a by auto
      from inv_node[OF inv1 ar] obtain w where w: "cache c1 (Key (heap c1 a)) = Some w" "Ptr w = a"
        by blast
      then have "Key (heap c a) \<noteq> key" using old(2,5) by auto
      then show ?thesis using that c3_simps(5,6) False w old(2,5) by auto
    qed
  qed
  have srt: "sorted (expirations c' (filter (\<lambda>b. Expires (heap c b) < e) rest @ i
               # filter (\<lambda>b. \<not> Expires (heap c b) < e) rest))"
    if "\<And>b. Expires (heap c' b) = Expires (heap c3 b)" for c' :: "('k, 'v) Cache"
  proof -
    have eq: "expirations c' rest = expirations c1 rest"
      by (rule expirations_cong) (use i_new that c3_simps(7) old(6) in auto)
    have "sorted (expirations c' rest)"
      unfolding eq using inv1 by (simp add: inv_def)
    then have "sorted (map (\<lambda>b. Expires (heap c' b)) rest)"
      by (simp only: expirations_def)
    then show ?thesis
      unfolding expirations_def
      by (rule sorted_insert_between) (use that c3_simps(7) i_new in auto)
  qed
  have alloc: "\<forall>a \<in> set (filter (\<lambda>b. Expires (heap c b) < e) rest @ i
               # filter (\<lambda>b. \<not> Expires (heap c b) < e) rest). a < Suc i"
    using inv1 fr1 by (auto simp: inv_def)
  show ?thesis
  proof (cases "rest = []")
    case True
    define c' where "c' = c3\<lparr>head := Some i, tail := Some i, timer := Some e\<rparr>"
    have "head c3 = None" using q3 True by (simp add: queue_def)
    then have 1: "Set key val ttl now c = Some (Return () c')"
      by (simp add: Set_eq setTimer_def c'_def c3_simps(7))
    have "queue c' [i]" by (simp add: queue_def c'_def c3_simps)
    moreover have "index_ok c' ([] @ i # [])"
      using idx[of c'] True by (simp add: c'_def)
    moreover have "sorted (expirations c' [i])" by (simp add: expirations_def)
    ultimately have "inv c' [i]" by (simp add: inv_def c'_def c3_simps)
    then show ?thesis using 1 True c3_simps by (auto simp: c'_def)
  next
    case False
    then have hd3: "head c3 \<noteq> None" "tail c3 = Some (last rest)"
      using q3 by (simp_all add: queue_def)
    have eq3: "expirations c3 rest = expirations c1 rest"
      by (rule expirations_cong) (use i_new c3_simps(7) old(6) in auto)
    have s3: "sorted (expirations c3 rest)"
      unfolding eq3 using inv1 by (simp add: inv_def)
    from Set_scan_queue[of c3 rest "[]" i] q3 False i_new s3
    obtain c' where c': "Set_scan i (Some (last rest)) c3 = Some (Return () c')"
      "queue c' (filter (\<lambda>b. Expires (heap c3 b) < Expires (heap c3 i)) rest @ i
          # filter (\<lambda>b. \<not> Expires (heap c3 b) < Expires (heap c3 i)) rest)"
      "cache c' = cache c3" "fresh c' = fresh c3"
      "\<And>b. Key (heap c' b) = Key (heap c3 b)" "\<And>b. Expires (heap c' b) = Expires (heap c3 b)"
      "timer c' = (if \<exists>b \<in> set rest. Expires (heap c3 b) < Expires (heap c3 i) then timer c3 else Some (Expires (heap c3 i)))"
      by auto
    have feq: "filter (\<lambda>b. Expires (heap c3 b) < Expires (heap c3 i)) rest = filter (\<lambda>b. Expires (heap c b) < e) rest"
      "filter (\<lambda>b. \<not> Expires (heap c3 b) < Expires (heap c3 i)) rest = filter (\<lambda>b. \<not> Expires (heap c b) < e) rest"
      using i_new by (auto simp: c3_simps(7) intro!: filter_cong)
    have ex: "(\<exists>b \<in> set rest. Expires (heap c3 b) < Expires (heap c3 i)) = (\<exists>b \<in> set rest. Expires (heap c b) < e)"
      using i_new by (auto simp: c3_simps(7))
    have 1: "Set key val ttl now c = Some (Return () c')"
      using hd3 c'(1) by (auto simp: Set_eq)
    have "inv c' (filter (\<lambda>b. Expires (heap c b) < e) rest @ i
               # filter (\<lambda>b. \<not> Expires (heap c b) < e) rest)"
      unfolding inv_def using c'(2) idx[OF c'(3,5)] srt[OF c'(6)] alloc
      by (simp add: feq c'(4) c3_simps(3))
    then show ?thesis using 1 c'(3-7) c3_simps ex by auto
  qed
qed

section \<open>Refresh on a well-formed cache\<close>

lemma filter_sorted_above:
  "sorted (map f (a # xs)) \<Longrightarrow> (e::int) < f a \<Longrightarrow>
   filter (\<lambda>b. \<not> e < f b) xs = [] \<and> filter (\<lambda>b. e < f b) xs = xs"
  by (induction xs) auto

lemma Refresh_headwards_queue:
  fixes c :: "('k, 'v) Cache"
  assumes "queue c (xs @ ys)" "xs \<noteq> []" "p \<notin> set (xs @ ys)" "sorted (expirations c xs)"
  shows "\<exists>c'. Refresh_headwards e p (Some (last xs)) c = Some (Return () c')
     \<and> queue c' (filter (\<lambda>b. Expires (heap c b) < e) xs @ p
                 # filter (\<lambda>b. \<not> Expires (heap c b) < e) xs @ ys)
     \<and> cache c' = cache c \<and> fresh c' = fresh c \<and> timer c' = timer c
     \<and> (\<forall>b. Key (heap c' b) = Key (heap c b)) \<and> (\<forall>b. Expires (heap c' b) = Expires (heap c b))"
  using assms
proof (induction xs arbitrary: ys rule: rev_induct)
  case Nil
  then show ?case by simp
next
  case (snoc a xs)
  have q: "queue c (xs @ a # ys)" using snoc.prems(1) by simp
  have new: "p \<notin> set (xs @ a # ys)" using snoc.prems(3) by simp
  have prev: "Prev (heap c a) = last_or xs None" by (rule queue_links(1)[OF q])
  show ?case
  proof (cases "Expires (heap c a) < e")
    case True
    have f: "filter (\<lambda>b. Expires (heap c b) < e) xs = xs \<and> filter (\<lambda>b. \<not> Expires (heap c b) < e) xs = []"
      using filter_sorted_below[of "\<lambda>b. Expires (heap c b)" xs a e] snoc.prems(4) True
      by (simp add: expirations_def)
    have "queue (insertAfter p a c) (xs @ a # p # ys)"
      by (rule insertAfter_queue[OF q new])
    then show ?thesis using True f
      by (subst Refresh_headwards.simps) auto
  next
    case False
    show ?thesis
    proof (cases "xs = []")
      case True
      have "queue (insertBefore p a c) ([] @ p # a # ys)"
        by (rule insertBefore_queue) (use q new True in auto)
      then show ?thesis using False True prev
        by (subst Refresh_headwards.simps) auto
    next
      case ne: False
      have s: "sorted (expirations c xs)" using snoc.prems(4)
        by (simp add: expirations_def sorted_append)
      from snoc.IH[OF q ne new s] ne False prev show ?thesis
        by (subst Refresh_headwards.simps) auto
    qed
  qed
qed

lemma Refresh_tailwards_queue:
  fixes c :: "('k, 'v) Cache"
  assumes "queue c (xs @ ys)" "ys \<noteq> []" "p \<notin> set (xs @ ys)" "sorted (expirations c ys)"
  shows "\<exists>c'. Refresh_tailwards e p (Some (hd ys)) c = Some (Return () c')
     \<and> queue c' (xs @ filter (\<lambda>b. \<not> e < Expires (heap c b)) ys @ p
                 # filter (\<lambda>b. e < Expires (heap c b)) ys)
     \<and> cache c' = cache c \<and> fresh c' = fresh c \<and> timer c' = timer c
     \<and> (\<forall>b. Key (heap c' b) = Key (heap c b)) \<and> (\<forall>b. Expires (heap c' b) = Expires (heap c b))"
  using assms
proof (induction ys arbitrary: xs)
  case Nil
  then show ?case by simp
next
  case (Cons a ys)
  have q: "queue c (xs @ a # ys)" using Cons.prems(1) by simp
  have new: "p \<notin> set (xs @ a # ys)" using Cons.prems(3) by simp
  have nxt: "Next (heap c a) = first_or ys None" by (rule queue_links(2)[OF q])
  show ?case
  proof (cases "e < Expires (heap c a)")
    case True
    have f: "filter (\<lambda>b. \<not> e < Expires (heap c b)) ys = [] \<and> filter (\<lambda>b. e < Expires (heap c b)) ys = ys"
      using filter_sorted_above[of "\<lambda>b. Expires (heap c b)" a ys e] Cons.prems(4) True
      by (simp add: expirations_def)
    have "queue (insertBefore p a c) (xs @ p # a # ys)"
      by (rule insertBefore_queue[OF q new])
    then show ?thesis using True f
      by (subst Refresh_tailwards.simps) auto
  next
    case False
    show ?thesis
    proof (cases "ys = []")
      case True
      have "queue (insertAfter p a c) (xs @ a # p # [])"
        by (rule insertAfter_queue) (use q new True in auto)
      then show ?thesis using False True nxt
        by (subst Refresh_tailwards.simps) auto
    next
      case ne: False
      have s: "sorted (expirations c ys)" using Cons.prems(4)
        by (simp add: expirations_def)
      have q': "queue c ((xs @ [a]) @ ys)" using q by simp
      have new': "p \<notin> set ((xs @ [a]) @ ys)" using new by simp
      have "first_or ys None = Some (hd ys)" using ne by (cases ys) auto
      with Cons.IH[OF q' ne new' s] ne False nxt show ?thesis
        by (subst Refresh_tailwards.simps) auto
    qed
  qed
qed

lemma map_upd_other: "a \<notin> set xs \<Longrightarrow> map (f(a := e)) xs = map f xs"
  by simp

lemma sorted_move_later:
  fixes f :: "'a \<Rightarrow> int"
  assumes "sorted (map f (xs @ a # ys))" "a \<notin> set (xs @ ys)" "f a < e"
  shows "sorted (map (f(a := e)) (xs @ filter (\<lambda>b. \<not> e < f b) ys @ a # filter (\<lambda>b. e < f b) ys))"
proof -
  have eq: "map (f(a := e)) (xs @ filter (\<lambda>b. \<not> e < f b) ys @ a # filter (\<lambda>b. e < f b) ys)
      = map f xs @ map f (filter (\<lambda>b. \<not> e < f b) ys) @ e # map f (filter (\<lambda>b. e < f b) ys)"
    using assms(2) by (simp add: map_upd_other)
  show ?thesis unfolding eq using assms(1,3)
    by (auto simp: sorted_append sorted_filter)
qed

lemma sorted_move_earlier:
  fixes f :: "'a \<Rightarrow> int"
  assumes "sorted (map f (xs @ a # ys))" "a \<notin> set (xs @ ys)" "\<not> f a < e"
  shows "sorted (map (f(a := e)) (filter (\<lambda>b. f b < e) xs @ a # filter (\<lambda>b. \<not> f b < e) xs @ ys))"
proof -
  have eq: "map (f(a := e)) (filter (\<lambda>b. f b < e) xs @ a # filter (\<lambda>b. \<not> f b < e) xs @ ys)
      = map f (filter (\<lambda>b. f b < e) xs) @ e # map f (filter (\<lambda>b. \<not> f b < e) xs) @ map f ys"
    using assms(2) by (simp add: map_upd_other)
  show ?thesis unfolding eq using assms(1,3)
    by (auto simp: sorted_append sorted_filter)
qed

lemma index_ok_cong:
  assumes "index_ok c as" "cache c' = cache c" "\<forall>b. Key (heap c' b) = Key (heap c b)"
    "set as' = set as"
  shows "index_ok c' as'"
  using assms by (simp add: index_ok_def)

lemma set_Expires_simps [simp]:
  "cache (set_Expires a e c) = cache c" "fresh (set_Expires a e c) = fresh c"
  "timer (set_Expires a e c) = timer c" "head (set_Expires a e c) = head c"
  "tail (set_Expires a e c) = tail c"
  "Key (heap (set_Expires a e c) b) = Key (heap c b)"
  "Prev (heap (set_Expires a e c) b) = Prev (heap c b)"
  "Next (heap (set_Expires a e c) b) = Next (heap c b)"
  "Expires (heap (set_Expires a e c) b) = (if b = a then e else Expires (heap c b))"
  by (simp_all add: set_Expires_def)

lemma queue_set_Expires [simp]: "queue (set_Expires a e c) as = queue c as"
  by (simp add: queue_pointwise)

lemma queue_head: "queue c as \<Longrightarrow> as \<noteq> [] \<Longrightarrow> head c = Some (hd as)"
  by (cases as) (simp_all add: queue_def)

lemma Refresh_finish_eq:
  fixes c :: "('k, 'v) Cache"
  assumes "queue c as" "as \<noteq> []"
  shows "Refresh_finish key a e wasFirst c =
    Return True (if wasFirst \<or> Key (heap c (hd as)) = key
       then (set_Expires a e c)\<lparr>timer := Some (if hd as = a then e else Expires (heap c (hd as)))\<rparr>
       else set_Expires a e c)"
proof -
  have "head (set_Expires a e c) = Some (hd as)"
    using queue_head[OF assms] by simp
  then show ?thesis
    by (simp add: Refresh_finish_def setTimer_def Let_def)
qed

lemma Refresh_loop:
  fixes c :: "('k, 'v) Cache" and e :: int
  assumes "inv c (xs @ a # ys)" "xs @ ys \<noteq> []"
  defines "as' \<equiv> (if Expires (heap c a) < e
      then xs @ filter (\<lambda>b. \<not> e < Expires (heap c b)) ys @ a # filter (\<lambda>b. e < Expires (heap c b)) ys
      else filter (\<lambda>b. Expires (heap c b) < e) xs @ a # filter (\<lambda>b. \<not> Expires (heap c b) < e) xs @ ys)"
  defines "c1 \<equiv> snd (remove a c)"
  shows "\<exists>c2. (if Expires (heap c1 a) < e
            then Refresh_tailwards e a (fst (remove a c)) c1
            else Refresh_headwards e a (fst (remove a c)) c1) = Some (Return () c2)
     \<and> queue c2 as'
     \<and> cache c2 = cache c \<and> fresh c2 = fresh c \<and> timer c2 = timer c
     \<and> (\<forall>b. Key (heap c2 b) = Key (heap c b)) \<and> (\<forall>b. Expires (heap c2 b) = Expires (heap c b))"
proof -
  have q: "queue c (xs @ a # ys)" using assms(1) by (rule inv_queue)
  have dist: "distinct (xs @ a # ys)" using assms(1) by (rule inv_distinct)
  have start: "fst (remove a c) = first_or ys (last_or xs None)" by (rule remove_result[OF q])
  have q1: "queue c1 (xs @ ys)" unfolding c1_def by (rule remove_queue[OF q])
  have a_new: "a \<notin> set (xs @ ys)" using dist by auto
  have srt: "sorted (map (\<lambda>b. Expires (heap c b)) (xs @ a # ys))"
    using assms(1) by (simp add: inv_def expirations_def)
  have e1: "\<And>b. Expires (heap c1 b) = Expires (heap c b)" by (simp add: c1_def)
  show ?thesis
  proof (cases "Expires (heap c a) < e")
    case later: True
    show ?thesis
    proof (cases "ys = []")
      case True
      then have ne: "xs \<noteq> []" using assms(2) by simp
      have q1': "queue c1 (butlast xs @ [last xs])" using q1 True ne by simp
      have below: "\<not> e < Expires (heap c (last xs))"
        using srt later last_in_set[OF ne] by (fastforce simp: sorted_append)
      have "(butlast xs @ [last xs]) @ [a] = xs @ [a]" using ne by simp
      then have bl: "butlast xs @ [last xs, a] = xs @ [a]" by simp
      from Refresh_tailwards_queue[of c1 "butlast xs" "[last xs]" a e, OF q1']
      show ?thesis using a_new ne True later start below
        by (auto simp: e1 expirations_def as'_def c1_def bl)
    next
      case False
      have "sorted (expirations c1 ys)" using srt by (simp add: expirations_def e1 sorted_append)
      moreover have "first_or ys (last_or xs None) = Some (hd ys)" using False by (cases ys) auto
      ultimately show ?thesis
        using Refresh_tailwards_queue[of c1 xs ys a e, OF q1 False a_new] later start
        by (auto simp: e1 as'_def c1_def)
    qed
  next
    case earlier: False
    show ?thesis
    proof (cases "ys = []")
      case True
      then have ne: "xs \<noteq> []" using assms(2) by simp
      have "sorted (expirations c1 xs)" using srt by (simp add: expirations_def e1 sorted_append)
      then show ?thesis
        using Refresh_headwards_queue[of c1 xs "[]" a e] q1 a_new ne True earlier start
        by (auto simp: e1 as'_def c1_def)
    next
      case False
      then obtain y ys' where ys: "ys = y # ys'" by (cases ys) auto
      have q1': "queue c1 ((xs @ [y]) @ ys')" using q1 ys by simp
      have s1: "sorted (expirations c1 (xs @ [y]))"
        using srt ys by (auto simp: expirations_def e1 sorted_append)
      have above: "\<not> Expires (heap c y) < e"
        using srt earlier ys by (auto simp: sorted_append)
      from Refresh_headwards_queue[of c1 "xs @ [y]" ys' a e, OF q1' _ _ s1]
      show ?thesis using a_new ys earlier start above
        by (auto simp: e1 as'_def c1_def)
    qed
  qed
qed

lemma Refresh_inv:
  fixes c :: "('k, 'v) Cache" and key :: 'k and ttl now :: int
  assumes "inv c (xs @ a # ys)" "cache c key = Some v" "Ptr v = a" "xs @ ys \<noteq> []"
  defines "e \<equiv> now + ttl"
  defines "as' \<equiv> (if Expires (heap c a) < e
      then xs @ filter (\<lambda>b. \<not> e < Expires (heap c b)) ys @ a # filter (\<lambda>b. e < Expires (heap c b)) ys
      else filter (\<lambda>b. Expires (heap c b) < e) xs @ a # filter (\<lambda>b. \<not> Expires (heap c b) < e) xs @ ys)"
  shows "\<exists>c'. Refresh key ttl now c = Some (Return True c')
     \<and> inv c' as'
     \<and> cache c' = cache c \<and> fresh c' = fresh c
     \<and> (\<forall>b. Key (heap c' b) = Key (heap c b))
     \<and> (\<forall>b. Expires (heap c' b) = (if b = a then e else Expires (heap c b)))
     \<and> timer c' = (if xs = [] \<or> hd as' = a then Some (Expires (heap c' (hd as'))) else timer c)"
proof -
  have q: "queue c (xs @ a # ys)" using assms(1) by (rule inv_queue)
  have dist: "distinct (xs @ a # ys)" using assms(1) by (rule inv_distinct)
  have hd: "head c = Some (hd (xs @ a # ys))" by (rule queue_head[OF q]) simp
  have ka: "Key (heap c a) = key" using inv_lookup[OF assms(1,2)] assms(3) by simp
  have key_a: "Key (heap c b) = key \<longleftrightarrow> b = a" if "b \<in> set (xs @ a # ys)" for b
    using inv_keys_inj[OF assms(1) that, of a] ka by auto
  have first: "Key (heap c (hd (xs @ a # ys))) = key \<longleftrightarrow> xs = []"
    using key_a[of "hd (xs @ a # ys)"] dist by (cases xs) auto
  from Refresh_loop[OF assms(1,4), of e, folded as'_def]
  obtain c2 where c2: "(if Expires (heap c a) < e
            then Refresh_tailwards e a (fst (remove a c)) (snd (remove a c))
            else Refresh_headwards e a (fst (remove a c)) (snd (remove a c))) = Some (Return () c2)"
     "queue c2 as'" "cache c2 = cache c" "fresh c2 = fresh c" "timer c2 = timer c"
     "\<And>b. Key (heap c2 b) = Key (heap c b)" "\<And>b. Expires (heap c2 b) = Expires (heap c b)"
    by auto
  have set': "set as' = set (xs @ a # ys)" by (auto simp: as'_def)
  have ne': "as' \<noteq> []" by (auto simp: as'_def)
  then have hd_in: "hd as' \<in> set (xs @ a # ys)" using set' hd_in_set by blast
  define c' where "c' = (if xs = [] \<or> Key (heap c2 (hd as')) = key
       then (set_Expires a e c2)\<lparr>timer := Some (if hd as' = a then e else Expires (heap c2 (hd as')))\<rparr>
       else set_Expires a e c2)"
  have R0: "Refresh key ttl now c =
      (case (if Expires (heap c a) < e
            then Refresh_tailwards e a (fst (remove a c)) (snd (remove a c))
            else Refresh_headwards e a (fst (remove a c)) (snd (remove a c))) of
         None \<Rightarrow> None
       | Some (Panic s) \<Rightarrow> Some (Panic s)
       | Some (Return u c2) \<Rightarrow> Some (Refresh_finish key a e (xs = []) c2))"
    using assms(2,3) hd first
    by (auto simp: Refresh_def Let_def case_prod_beta e_def split: option.splits outcome.splits)
  have R: "Refresh key ttl now c = Some (Return True c')"
    unfolding R0 c2(1) using Refresh_finish_eq[OF c2(2) ne', of key a e "xs = []"]
    by (simp add: c'_def)
  have frames: "cache c' = cache c" "fresh c' = fresh c" "\<And>b. Key (heap c' b) = Key (heap c b)"
    "\<And>b. Expires (heap c' b) = (if b = a then e else Expires (heap c b))"
    using c2(3-7) by (auto simp: c'_def)
  have tm: "timer c' = (if xs = [] \<or> hd as' = a then Some (Expires (heap c' (hd as'))) else timer c)"
    using c2(5,6,7) key_a[OF hd_in] by (auto simp: c'_def)
  have "queue c' as'" using c2(2) by (simp add: c'_def)
  moreover have "index_ok c' as'"
    by (rule index_ok_cong[of c "xs @ a # ys"]) (use assms(1) frames set' in \<open>auto simp: inv_def\<close>)
  moreover have "sorted (expirations c' as')"
  proof -
    have "expirations c' as' = map ((\<lambda>b. Expires (heap c b))(a := e)) as'"
      by (simp add: expirations_def frames fun_upd_def)
    moreover have "sorted (map (\<lambda>b. Expires (heap c b)) (xs @ a # ys))"
      using assms(1) by (simp add: inv_def expirations_def)
    moreover have "a \<notin> set (xs @ ys)" using dist by auto
    ultimately show ?thesis
      using sorted_move_later[of "\<lambda>b. Expires (heap c b)" xs a ys e]
        sorted_move_earlier[of "\<lambda>b. Expires (heap c b)" xs a ys e]
      by (simp add: as'_def)
  qed
  moreover have "\<forall>b \<in> set as'. b < fresh c'"
    using assms(1) set' frames(2) by (simp add: inv_def)
  ultimately have "inv c' as'" by (simp add: inv_def)
  then show ?thesis using R frames tm by blast
qed

section \<open>Delete, GetAndDelete, Swap and Update on a well-formed cache\<close>

lemma delete_inv:
  fixes c :: "('k, 'v) Cache" and key :: 'k
  assumes "inv c as"
  shows "fst (delete key c) = (cache c key \<noteq> None)"
    and "inv (snd (delete key c)) (filter (\<lambda>a. Key (heap c a) \<noteq> key) as)"
    and "cache (snd (delete key c)) = (cache c)(key := None)"
proof -
  note old = Set_delete_old[OF assms, of key]
  have eq: "snd (delete key c) = (if cache c key \<noteq> None then snd (delete key c) else c)"
    by (simp add: delete_absent)
  show "inv (snd (delete key c)) (filter (\<lambda>a. Key (heap c a) \<noteq> key) as)"
    using old(1) eq by simp
  show "cache (snd (delete key c)) = (cache c)(key := None)"
    using old(2) eq by simp
  show "fst (delete key c) = (cache c key \<noteq> None)"
  proof (cases "cache c key")
    case None
    then show ?thesis by (simp add: delete_absent)
  next
    case (Some v)
    then have "Ptr v \<in> set as" using inv_lookup[OF assms] by blast
    then obtain xs ys where as: "as = xs @ Ptr v # ys" by (meson split_list)
    show ?thesis
      using delete_present(1)[OF assms[unfolded as] Some refl] Some by simp
  qed
qed

lemma inv_timer_upd [simp]: "inv (c\<lparr>timer := t\<rparr>) as = inv c as"
  by (simp add: inv_def index_ok_def expirations_def)

lemma inv_head: "inv c as \<Longrightarrow> head c = first_or as None"
  by (simp add: inv_def queue_def)

lemma Delete_inv:
  fixes c :: "('k, 'v) Cache" and key :: 'k
  assumes "inv c as"
  defines "rest \<equiv> filter (\<lambda>a. Key (heap c a) \<noteq> key) as"
  shows "\<exists>c'. Delete key c = Return (cache c key \<noteq> None) c'
     \<and> inv c' rest
     \<and> cache c' = (cache c)(key := None) \<and> fresh c' = fresh c
     \<and> (\<forall>b. Key (heap c' b) = Key (heap c b)) \<and> (\<forall>b. Expires (heap c' b) = Expires (heap c b))
     \<and> timer c' = (if as \<noteq> [] \<and> Key (heap c (hd as)) = key \<and> rest \<noteq> []
                   then Some (Expires (heap c (hd rest))) else timer c)"
proof -
  note d = delete_inv[OF assms(1), of key, folded rest_def]
  have h: "head c = first_or as None" using assms(1) by (rule inv_head)
  have h1: "head (snd (delete key c)) = first_or rest None" using d(2) by (rule inv_head)
  show ?thesis
  proof (cases "as \<noteq> [] \<and> Key (heap c (hd as)) = key \<and> rest \<noteq> []")
    case True
    then have "head (snd (delete key c)) = Some (hd rest)" using h1 by (cases rest) auto
    moreover have "head c = Some (hd as)" using h True by (cases as) auto
    ultimately show ?thesis using True d
      by (auto simp: Delete_def case_prod_beta setTimer_def)
  next
    case False
    then show ?thesis using d h h1
      by (cases as; cases rest) (auto simp: Delete_def case_prod_beta setTimer_def)
  qed
qed

lemma GetAndDelete_inv:
  fixes c :: "('k, 'v::zero) Cache" and key :: 'k
  assumes "inv c as"
  shows "inv (snd (GetAndDelete key c)) (filter (\<lambda>a. Key (heap c a) \<noteq> key) as)"
    and "cache (snd (GetAndDelete key c)) = (cache c)(key := None)"
    and "fst (GetAndDelete key c) = Get key c"
  using delete_inv[OF assms, of key] inv_absent_rest[OF assms, of key] assms
  by (auto simp: GetAndDelete_def Get_def split: option.splits)

lemma index_ok_lookup:
  "index_ok c as \<Longrightarrow> cache c k = Some v \<Longrightarrow> Ptr v \<in> set as \<and> Key (heap c (Ptr v)) = k"
  by (simp add: index_ok_def)

lemma index_ok_node:
  "index_ok c as \<Longrightarrow> a \<in> set as \<Longrightarrow> \<exists>v. cache c (Key (heap c a)) = Some v \<and> Ptr v = a"
  by (simp add: index_ok_def)

lemma index_ok_swap:
  assumes "index_ok c as" "cache c key = Some v"
  shows "index_ok (c\<lparr>cache := (cache c)(key \<mapsto> \<lparr>Value = val, Ptr = Ptr v\<rparr>)\<rparr>) as"
  unfolding index_ok_def
proof (intro conjI allI impI ballI)
  fix k w
  assume "cache (c\<lparr>cache := (cache c)(key \<mapsto> \<lparr>Value = val, Ptr = Ptr v\<rparr>)\<rparr>) k = Some w"
  then obtain w' where "cache c k = Some w'" "Ptr w' = Ptr w"
    using assms(2) by (cases "k = key") auto
  then show "Ptr w \<in> set as"
    "Key (heap (c\<lparr>cache := (cache c)(key \<mapsto> \<lparr>Value = val, Ptr = Ptr v\<rparr>)\<rparr>) (Ptr w)) = k"
    using index_ok_lookup[OF assms(1), of k w'] by simp_all
next
  fix a assume "a \<in> set as"
  then obtain w where w: "cache c (Key (heap c a)) = Some w" "Ptr w = a"
    using index_ok_node[OF assms(1)] by blast
  show "\<exists>w. cache (c\<lparr>cache := (cache c)(key \<mapsto> \<lparr>Value = val, Ptr = Ptr v\<rparr>)\<rparr>)
          (Key (heap (c\<lparr>cache := (cache c)(key \<mapsto> \<lparr>Value = val, Ptr = Ptr v\<rparr>)\<rparr>) a)) = Some w
        \<and> Ptr w = a"
    using w assms(2) by (cases "Key (heap c a) = key") auto
qed

lemma Swap_inv:
  fixes c :: "('k, 'v) Cache"
  assumes "inv c as"
  shows "inv (snd (Swap key val c)) as"
proof (cases "cache c key")
  case None
  then show ?thesis using assms by (simp add: Swap_def)
next
  case (Some v)
  have "index_ok (c\<lparr>cache := (cache c)(key \<mapsto> \<lparr>Value = val, Ptr = Ptr v\<rparr>)\<rparr>) as"
    by (rule index_ok_swap) (use assms Some in \<open>simp_all add: inv_def\<close>)
  then show ?thesis using assms Some
    by (simp add: Swap_def inv_def expirations_def)
qed

lemma Update_unchanged: "snd (Update key val c) = c"
  by (simp add: Update_def split: option.splits)

section \<open>Evict and the ticker on a well-formed cache\<close>

lemma remove_cache_upd:
  "remove a (c\<lparr>cache := m\<rparr>) = (fst (remove a c), (snd (remove a c))\<lparr>cache := m\<rparr>)"
  by (simp add: remove_def set_Prev_def set_Next_def Let_def split: option.splits)

lemma remove_timer_upd:
  "remove a (c\<lparr>timer := t\<rparr>) = (fst (remove a c), (snd (remove a c))\<lparr>timer := t\<rparr>)"
  by (simp add: remove_def set_Prev_def set_Next_def Let_def split: option.splits)

lemma delete_head:
  fixes c :: "('k, 'v) Cache"
  assumes "inv c (a # as)"
  shows "delete (Key (heap c a)) c = (True, (snd (remove a c))\<lparr>cache := (cache c)(Key (heap c a) := None)\<rparr>)"
    and "inv (snd (delete (Key (heap c a)) c)) as"
proof -
  obtain v where v: "cache c (Key (heap c a)) = Some v" "Ptr v = a"
    using inv_node[OF assms, of a] by auto
  have "head c \<noteq> None" using inv_head[OF assms] by simp
  then show "delete (Key (heap c a)) c = (True, (snd (remove a c))\<lparr>cache := (cache c)(Key (heap c a) := None)\<rparr>)"
    using v by (auto simp: delete_def case_prod_beta)
  show "inv (snd (delete (Key (heap c a)) c)) as"
    using delete_present(3)[of c "[]" a as, OF _ v] assms by simp
qed

lemma queue_keys_simps [simp]:
  "queue_keys c [] = []" "queue_keys c (a # as) = Key (heap c a) # queue_keys c as"
  by (simp_all add: queue_keys_def)

lemma Evict_loop_inv:
  fixes c :: "('k, 'v) Cache"
  assumes "inv c as"
  shows "\<exists>c'. Evict_loop n evicted c = (evicted + int (min (nat (n - evicted)) (length as)), c')
     \<and> inv c' (drop (nat (n - evicted)) as)
     \<and> (\<forall>k. cache c' k = (if k \<in> set (queue_keys c (take (nat (n - evicted)) as)) then None else cache c k))
     \<and> fresh c' = fresh c \<and> timer c' = timer c
     \<and> (\<forall>b. Key (heap c' b) = Key (heap c b)) \<and> (\<forall>b. Expires (heap c' b) = Expires (heap c b))"
  using assms
proof (induction as arbitrary: c evicted)
  case Nil
  then have "head c = None" using inv_head by fastforce
  then show ?case using Nil
    by (subst Evict_loop.simps) (simp add: queue_keys_def)
next
  case (Cons a as)
  show ?case
  proof (cases "evicted < n")
    case False
    then show ?thesis using Cons.prems
      by (subst Evict_loop.simps) (simp add: queue_keys_def)
  next
    case True
    have hd: "head c = Some a" using inv_head[OF Cons.prems] by simp
    note d = delete_head[OF Cons.prems]
    define c1 where "c1 = snd (delete (Key (heap c a)) c)"
    have step: "Evict_loop n evicted c = Evict_loop n (evicted + 1) c1"
      using True hd d(1) by (subst Evict_loop.simps) (simp add: c1_def)
    have n1: "nat (n - evicted) = Suc (nat (n - (evicted + 1)))" using True by simp
    from Cons.IH[of c1 "evicted + 1"] d(2)
    obtain c' where c': "Evict_loop n (evicted + 1) c1 = (evicted + 1 + int (min (nat (n - (evicted + 1))) (length as)), c')"
      "inv c' (drop (nat (n - (evicted + 1))) as)"
      "\<And>k. cache c' k = (if k \<in> set (queue_keys c1 (take (nat (n - (evicted + 1))) as)) then None else cache c1 k)"
      "fresh c' = fresh c1" "timer c' = timer c1"
      "\<And>b. Key (heap c' b) = Key (heap c1 b)" "\<And>b. Expires (heap c' b) = Expires (heap c1 b)"
      unfolding c1_def by blast
    have c1_cache: "cache c1 = (cache c)(Key (heap c a) := None)"
      by (simp add: c1_def d(1))
    have qk: "queue_keys c1 xs = queue_keys c xs" for xs
      by (simp add: queue_keys_def c1_def)
    have len: "evicted + 1 + int (min (nat (n - (evicted + 1))) (length as))
        = evicted + int (min (Suc (nat (n - (evicted + 1)))) (length (a # as)))"
      by simp
    have "Evict_loop n evicted c = (evicted + int (min (nat (n - evicted)) (length (a # as))), c')"
      unfolding step c'(1) n1 len ..
    moreover have "inv c' (drop (nat (n - evicted)) (a # as))"
      unfolding n1 using c'(2) by simp
    moreover have "\<forall>k. cache c' k = (if k \<in> set (queue_keys c (take (nat (n - evicted)) (a # as))) then None else cache c k)"
      unfolding n1 by (simp add: c'(3) qk c1_cache)
    moreover have "fresh c' = fresh c" "timer c' = timer c"
      "\<forall>b. Key (heap c' b) = Key (heap c b)" "\<forall>b. Expires (heap c' b) = Expires (heap c b)"
      by (simp_all add: c'(4-7) c1_def)
    ultimately show ?thesis by blast
  qed
qed

lemma Evict_inv:
  fixes c :: "('k, 'v) Cache" and n :: int
  assumes "inv c as"
  defines "m \<equiv> min (nat n) (length as)"
  shows "\<exists>c'. Evict n c = Return (int m) c'
     \<and> inv c' (drop m as)
     \<and> (\<forall>k. cache c' k = (if k \<in> set (queue_keys c (take m as)) then None else cache c k))
     \<and> fresh c' = fresh c
     \<and> (\<forall>b. Key (heap c' b) = Key (heap c b)) \<and> (\<forall>b. Expires (heap c' b) = Expires (heap c b))
     \<and> timer c' = (if 0 < m \<and> drop m as \<noteq> [] then Some (Expires (heap c (hd (drop m as)))) else timer c)"
proof -
  from Evict_loop_inv[OF assms(1), of n 0]
  obtain c1 where c1: "Evict_loop n 0 c = (int (min (nat n) (length as)), c1)"
      "inv c1 (drop (nat n) as)"
      "\<And>k. cache c1 k = (if k \<in> set (queue_keys c (take (nat n) as)) then None else cache c k)"
      "fresh c1 = fresh c" "timer c1 = timer c"
      "\<And>b. Key (heap c1 b) = Key (heap c b)" "\<And>b. Expires (heap c1 b) = Expires (heap c b)"
    by auto
  have dm: "drop (nat n) as = drop m as" "take (nat n) as = take m as"
    by (simp_all add: m_def min_def)
  have h1: "head c1 = first_or (drop m as) None" using inv_head[OF c1(2)] dm by simp
  show ?thesis
  proof (cases "0 < m \<and> drop m as \<noteq> []")
    case True
    then have "head c1 = Some (hd (drop m as))" using h1 by (cases "drop m as") auto
    then show ?thesis using True c1 dm
      by (auto simp: Evict_def m_def[symmetric] setTimer_def)
  next
    case False
    then have "\<not> (0 < int m \<and> head c1 \<noteq> None)" using h1 by auto
    then show ?thesis using False c1 dm
      by (auto simp: Evict_def m_def[symmetric])
  qed
qed

lemma ticker_parked:
  "timer c = None \<or> (\<exists>d. timer c = Some d \<and> now < d) \<Longrightarrow> ticker now c = Return () c"
  by (auto simp: ticker_def)

lemma ticker_fires:
  fixes c :: "('k, 'v) Cache"
  assumes "inv c as" "timer c = Some d" "d \<le> now"
  shows "\<exists>c'. ticker now c = Return () c'
     \<and> inv c' (tl as)
     \<and> cache c' = (if as = [] then cache c else (cache c)(Key (heap c (hd as)) := None))
     \<and> fresh c' = fresh c
     \<and> (\<forall>b. Key (heap c' b) = Key (heap c b)) \<and> (\<forall>b. Expires (heap c' b) = Expires (heap c b))
     \<and> timer c' = (if tl as = [] then None else Some (Expires (heap c (hd (tl as)))))"
proof (cases as)
  case Nil
  then have "head c = None" using inv_head[OF assms(1)] by simp
  then show ?thesis using assms Nil by (simp add: ticker_def)
next
  case (Cons a as')
  have hd: "head c = Some a" using inv_head[OF assms(1)] Cons by simp
  note d = delete_head[OF assms(1)[unfolded Cons]]
  define c1 where "c1 = (snd (delete (Key (heap c a)) c))\<lparr>timer := None\<rparr>"
  have inv1: "inv c1 as'" using d(2) by (simp add: c1_def)
  have h1: "head c1 = first_or as' None" using inv_head[OF inv1] .
  have c1_eq: "c1 = (snd (remove a c))\<lparr>timer := None, cache := (cache c)(Key (heap c a) := None)\<rparr>"
    by (simp add: c1_def d(1))
  have t: "ticker now c = (if head c1 \<noteq> None then setTimer c1 else Return () c1)"
    using assms(2,3) hd
    by (simp add: ticker_def Let_def remove_cache_upd remove_timer_upd c1_eq)
  have fr: "cache c1 = (cache c)(Key (heap c a) := None)" "fresh c1 = fresh c"
     "\<And>b. Key (heap c1 b) = Key (heap c b)" "\<And>b. Expires (heap c1 b) = Expires (heap c b)"
     "timer c1 = None"
    by (simp_all add: c1_def d(1))
  show ?thesis
  proof (cases as')
    case Nil
    then show ?thesis using t h1 inv1 fr Cons by auto
  next
    case (Cons b bs)
    then have "head c1 = Some b" using h1 by simp
    then show ?thesis using t inv1 fr Cons \<open>as = a # as'\<close>
      by (auto simp: setTimer_def)
  qed
qed

section \<open>The invariant along sequences of operations\<close>

lemma inv_New: "inv New []"
  by (simp add: inv_def queue_def index_ok_def expirations_def New_def)

lemma inv_dom: 
  assumes "inv c as"
  shows "dom (cache c) = set (queue_keys c as)"
proof
  show "dom (cache c) \<subseteq> set (queue_keys c as)"
  proof
    fix k assume "k \<in> dom (cache c)"
    then obtain v where "cache c k = Some v" by auto
    from inv_lookup[OF assms this] show "k \<in> set (queue_keys c as)"
      by (auto simp: queue_keys_def)
  qed
  show "set (queue_keys c as) \<subseteq> dom (cache c)"
    using inv_node[OF assms] by (fastforce simp: queue_keys_def)
qed

lemma inv_keys_distinct:
  assumes "inv c as"
  shows "distinct (queue_keys c as)"
  unfolding queue_keys_def distinct_map
  using inv_distinct[OF assms] inv_keys_inj[OF assms] by (auto simp: inj_on_def)

lemma inv_Len: "inv c as \<Longrightarrow> Len c = length as"
  using inv_dom[of c as] inv_keys_distinct[of c as] distinct_card[of "queue_keys c as"]
  by (simp add: Len_def queue_keys_def)

lemma exec_inv:
  fixes c :: "('k, 'v::zero) Cache"
  assumes "inv c as" "exec now x c = Some (Return () c')"
  shows "\<exists>as'. inv c' as'"
proof (cases x)
  case (OpSet key val ttl)
  then show ?thesis using Set_inv[OF assms(1), of key val ttl now] assms(2) by auto
next
  case (OpSwap key val)
  then show ?thesis using Swap_inv[OF assms(1), of key val] assms(2) by auto
next
  case (OpDelete key)
  then show ?thesis using Delete_inv[OF assms(1), of key] assms(2) by auto
next
  case (OpGetAndDelete key)
  then show ?thesis using GetAndDelete_inv(1)[OF assms(1), of key] assms(2) by auto
next
  case (OpUpdate key val)
  then show ?thesis using assms by (auto simp: Update_unchanged)
next
  case (OpRefresh key ttl)
  show ?thesis
  proof (cases "cache c key")
    case None
    then show ?thesis using assms OpRefresh by (auto simp: Refresh_def)
  next
    case (Some v)
    then have "Ptr v \<in> set as" using inv_lookup[OF assms(1)] by blast
    then obtain xs ys where as: "as = xs @ Ptr v # ys" by (meson split_list)
    show ?thesis
    proof (cases "xs @ ys = []")
      case True
      then have q: "queue c [Ptr v]" using inv_queue[OF assms(1)] as by simp
      then have "head c = Some (Ptr v)" "Prev (heap c (Ptr v)) = None" "Next (heap c (Ptr v)) = None"
        by (simp_all add: queue_def)
      then have "\<exists>s. Refresh key ttl now c = Some (Panic s)"
        using Some
        by (simp add: Refresh_def remove_def Let_def Refresh_tailwards.simps Refresh_headwards.simps)
      then show ?thesis using assms(2) OpRefresh by auto
    next
      case False
      from Refresh_inv[OF assms(1)[unfolded as] Some refl False, of ttl now]
      show ?thesis using assms(2) OpRefresh by auto
    qed
  qed
next
  case (OpEvict n)
  then show ?thesis using Evict_inv[OF assms(1), of n] assms(2) by auto
next
  case OpTicker
  show ?thesis
  proof (cases "timer c = None \<or> (\<exists>d. timer c = Some d \<and> now < d)")
    case True
    then show ?thesis using ticker_parked[OF True] assms OpTicker by auto
  next
    case False
    then obtain d where "timer c = Some d" "d \<le> now"
      by (cases "timer c") (auto simp: not_less)
    from ticker_fires[OF assms(1) this] show ?thesis using assms(2) OpTicker by auto
  qed
qed

lemma run_inv:
  fixes c :: "('k, 'v::zero) Cache"
  assumes "inv c as" "run ops c = Some (Return () c')"
  shows "\<exists>as'. inv c' as'"
  using assms
proof (induction ops arbitrary: c as)
  case Nil
  then show ?case by auto
next
  case (Cons x ops)
  obtain now y where x: "x = (now, y)" by (cases x)
  from Cons.prems(2) obtain c1 where c1: "exec now y c = Some (Return () c1)" "run ops c1 = Some (Return () c')"
    by (auto simp: x split: option.splits outcome.splits)
  from exec_inv[OF Cons.prems(1) c1(1)] obtain as1 where "inv c1 as1" by blast
  from Cons.IH[OF this c1(2)] show ?case .
qed

lemma run_Sets:
  fixes c :: "('k, 'v::zero) Cache"
  assumes "inv c as" "\<forall>x \<in> set ops. is_Set (snd x)"
  shows "\<exists>c'. run ops c = Some (Return () c')"
  using assms
proof (induction ops arbitrary: c as)
  case Nil
  then show ?case by auto
next
  case (Cons x ops)
  obtain now y where x: "x = (now, y)" by (cases x)
  then obtain key val ttl where y: "y = OpSet key val ttl" using Cons.prems(2) by (cases y) auto
  from Set_inv[OF Cons.prems(1), of key val ttl now]
  obtain c1 as1 where c1: "Set key val ttl now c = Some (Return () c1)" "inv c1 as1" by blast
  from Cons.IH[OF c1(2)] Cons.prems(2) obtain c' where "run ops c1 = Some (Return () c')" by auto
  then show ?case using c1(1) by (auto simp: x y)
qed

section \<open>Range on a well-formed cache\<close>

lemma Range_keys_seg:
  fixes c :: "('k, 'v) Cache"
  assumes "distinct as" "seg (heap c) p as None"
  shows "Range_keys keys (first_or as None) c = Some (keys @ queue_keys c as)"
  using assms
proof (induction as arbitrary: keys p)
  case Nil
  then show ?case by (subst Range_keys.simps) simp
next
  case (Cons a as)
  from Cons.prems have "Next (heap c a) = first_or as None" "seg (heap c) (Some a) as None" "distinct as"
    by simp_all
  with Cons.IH[of "Some a" "keys @ [Key (heap c a)]"] show ?case
    by (subst Range_keys.simps) simp
qed

lemma Range_keys_inv:
  "inv c as \<Longrightarrow> Range_keys [] (head c) c = Some (queue_keys c as)"
  using Range_keys_seg[of as c None "[]"] by (simp add: inv_def queue_def)

lemma Range_visit_append:
  fixes c :: "('k, 'v::zero) Cache"
  assumes "continues fn ks1 c"
  shows "Range_visit fn (ks1 @ ks2) c =
     (fst (Range_visit fn ks1 c) @ fst (Range_visit fn ks2 (snd (Range_visit fn ks1 c))),
      snd (Range_visit fn ks2 (snd (Range_visit fn ks1 c))))"
  using assms
  by (induction ks1 arbitrary: c) (auto simp: Let_def case_prod_beta)

section \<open>The ticker and the scheduler\<close>

















section \<open>Evaluating the concrete runs\<close>

lemmas queue_defs = remove_def insertBefore_def insertAfter_def set_Prev_def set_Next_def
  set_Expires_def

lemma Set_one_entry: "Set ''a'' 7 100 0 New = Some (Return () one_entry)"
  by (simp add: Set_def New_def setTimer_def one_entry_def)

lemma Set_two_entries: "Set ''b'' 8 300 0 one_entry = Some (Return () two_entries)"
  by (simp add: Set_def Set_scan.simps New_def queue_defs one_entry_def two_entries_def
      fun_upd_twist)

lemma inv_one_entry: "inv one_entry [0]"
  by (simp add: inv_def queue_def index_ok_def expirations_def one_entry_def)

lemma inv_two_entries: "inv two_entries [0, 1]"
  by (simp add: inv_def queue_def index_ok_def expirations_def two_entries_def)

lemma one_entry_simps:
  "fresh one_entry = 1" "head one_entry = Some 0" "timer one_entry = Some 100"
  "Key (heap one_entry 0) = ''a''" "Expires (heap one_entry 0) = 100"
  "cache one_entry ''a'' = Some \<lparr>Value = 7, Ptr = 0\<rparr>" "cache one_entry ''x'' = None"
  by (simp_all add: one_entry_def)

lemma two_entries_simps:
  "fresh two_entries = 2" "head two_entries = Some 0" "timer two_entries = Some 100"
  "Key (heap two_entries 0) = ''a''" "Expires (heap two_entries 0) = 100"
  "Key (heap two_entries 1) = ''b''" "Expires (heap two_entries 1) = 300"
  "cache two_entries ''a'' = Some \<lparr>Value = 7, Ptr = 0\<rparr>"
  "cache two_entries ''b'' = Some \<lparr>Value = 8, Ptr = 1\<rparr>"
  by (simp_all add: two_entries_def)

section \<open>The claims\<close>

text \<open>
  C1. The claim: for a present key, \<open>Update(key, value)\<close> returns true and replaces the
  stored value, so that a following \<open>Get(key)\<close> returns the new value. The code returns
  true and stores nothing: after \<open>Set("a", 7, 100)\<close>, the call \<open>Update("a", 9)\<close> returns
  true and leaves the cache as it was, and \<open>Get("a")\<close> still returns 7.
\<close>

theorem Update_keeps_old_value:
  "Set ''a'' 7 100 0 New = Some (Return () one_entry)
   \<and> Update ''a'' 9 one_entry = (True, one_entry)
   \<and> Get ''a'' (snd (Update ''a'' 9 one_entry)) = (7, True)"
  by (simp add: Set_one_entry) (simp add: Update_def Get_def one_entry_def)

text \<open>
  C2. The claim: \<open>Refresh(key, ttl)\<close> succeeds on every cache that holds the key, a cache
  of exactly one entry included. On the cache that holds only key "a", \<open>remove\<close> returns
  nil (the node has neither a successor nor a predecessor), and the loop of
  \<open>Refresh("a", 200)\<close> reads \<open>n.Expires\<close> through that nil pointer: the call panics,
  with the queue already emptied.
\<close>

theorem Refresh_single_entry_panics:
  "Set ''a'' 7 100 0 New = Some (Return () one_entry)
   \<and> Refresh ''a'' 200 0 one_entry = Some (Panic (one_entry\<lparr>head := None, tail := None\<rparr>))"
  by (simp add: Set_one_entry)
     (simp add: Refresh_def Refresh_tailwards.simps queue_defs one_entry_def New_def)

text \<open>
  C3. The claim: every mutation that changes the head re-arms the scheduler for the new
  head, \<open>GetAndDelete\<close> of the head and \<open>Set\<close> replacing the head with a later
  expiration included. In the cache with key "a" expiring at 100 and key "b" expiring at 300,
  the scheduler is aligned with the head; after \<open>GetAndDelete("a")\<close>, and after
  \<open>Set("a", 9, 400)\<close>, key "b" is the head and the parked ticker still sleeps until 100.
  When that ticker fires at 100 it removes the head it finds: key "b", 200 before its
  expiration.
\<close>

theorem head_change_without_rearm:
  "aligned two_entries
   \<and> \<not> aligned (snd (GetAndDelete ''a'' two_entries))
   \<and> timer (snd (GetAndDelete ''a'' two_entries)) = Some 100
   \<and> map_option (\<lambda>h. (Key (heap (snd (GetAndDelete ''a'' two_entries)) h),
                        Expires (heap (snd (GetAndDelete ''a'' two_entries)) h)))
        (head (snd (GetAndDelete ''a'' two_entries))) = Some (''b'', 300)
   \<and> Get ''b'' (snd (GetAndDelete ''a'' two_entries)) = (8, True)
   \<and> (case ticker 100 (snd (GetAndDelete ''a'' two_entries)) of
        Return u c \<Rightarrow> Get ''b'' c = (0, False)
      | Panic c \<Rightarrow> False)
   \<and> (case Set ''a'' 9 400 0 two_entries of
        Some (Return u c) \<Rightarrow>
          \<not> aligned c \<and> timer c = Some 100
          \<and> map_option (\<lambda>h. (Key (heap c h), Expires (heap c h))) (head c) = Some (''b'', 300)
      | Some (Panic c) \<Rightarrow> False
      | None \<Rightarrow> False)"
  by (simp add: aligned_def GetAndDelete_def Get_def ticker_def delete_def Set_def Set_scan.simps
      queue_defs two_entries_def New_def)

text \<open>
  C4. The claim: a new entry whose expiration equals that of existing entries is placed
  after them (first in, first out among ties). The scan of \<open>Set\<close> walks from the tail
  and stops at the first node that expires strictly before the new one, so it passes every
  node with an equal expiration: after \<open>Set("a", 7, 100)\<close> and \<open>Set("b", 8, 100)\<close>,
  both at time 0, the queue from head to tail is "b", "a".
\<close>

theorem Set_tie_counterexample:
  "(case Set ''b'' 8 100 0 one_entry of
      Some (Return u c) \<Rightarrow>
        Range_keys [] (head c) c = Some [''b'', ''a'']
        \<and> map_option (\<lambda>h. Expires (heap c h)) (head c) = Some 100
        \<and> map_option (\<lambda>t. Expires (heap c t)) (tail c) = Some 100
    | Some (Panic c) \<Rightarrow> False
    | None \<Rightarrow> False)"
  by (simp add: Set_def Set_scan.simps setTimer_def queue_defs one_entry_def New_def
      Range_keys.simps)

text \<open>
  C4, amended. On a well-formed cache \<open>Set\<close> returns, and the new node (the freshly
  allocated address) stands directly after the nodes that expire strictly before it and
  before all nodes that expire at the same time or later; the other nodes keep their order,
  keys and expirations (an old entry of the same key is removed first). So among ties the
  entry set last comes first.
\<close>

theorem Set_places_new_entry_before_ties:
  fixes c :: "('k, 'v) Cache"
  assumes "inv c as"
  shows "\<exists>c'. Set key val ttl now c = Some (Return () c')
     \<and> inv c' (filter (\<lambda>b. Expires (heap c b) < now + ttl) (filter (\<lambda>a. Key (heap c a) \<noteq> key) as)
               @ fresh c
               # filter (\<lambda>b. \<not> Expires (heap c b) < now + ttl) (filter (\<lambda>a. Key (heap c a) \<noteq> key) as))
     \<and> Key (heap c' (fresh c)) = key \<and> Expires (heap c' (fresh c)) = now + ttl
     \<and> (\<forall>b. b \<noteq> fresh c \<longrightarrow>
            Key (heap c' b) = Key (heap c b) \<and> Expires (heap c' b) = Expires (heap c b))"
  using Set_inv[OF assms, of key val ttl now] by auto

theorem Set_places_new_entry_before_ties_witness:
  "inv one_entry [0]
   \<and> (\<exists>c'. Set ''b'' 8 100 0 one_entry = Some (Return () c')
          \<and> inv c' [1, 0]
          \<and> Key (heap c' 1) = ''b'' \<and> Expires (heap c' 1) = 100 \<and> Expires (heap c' 0) = 100)"
  using Set_places_new_entry_before_ties[OF inv_one_entry, of "''b''" 8 100 0]
  by (auto simp: inv_one_entry one_entry_simps)




text \<open>
  C6. The claim: no operation applies partially; an operation that faults leaves the index
  and the queue as they were. \<open>Refresh("a", 200)\<close> on the cache that holds only key "a"
  panics after \<open>remove\<close> has unlinked the node: the index still holds key "a", and the
  queue, which held its node, is empty.
\<close>

theorem Refresh_panic_leaves_queue_emptied:
  "(case Refresh ''a'' 200 0 one_entry of
      Some (Panic s) \<Rightarrow>
        cache s ''a'' = cache one_entry ''a'' \<and> cache s ''a'' \<noteq> None
        \<and> head one_entry = Some 0 \<and> tail one_entry = Some 0
        \<and> head s = None \<and> tail s = None
    | Some (Return r s) \<Rightarrow> False
    | None \<Rightarrow> False)"
  by (simp add: Refresh_def Refresh_tailwards.simps queue_defs one_entry_def New_def)

text \<open>
  C7. After every operation that returns, started on a well-formed cache, and so after every
  sequence of such operations, the cache is well formed again: there is a list \<open>as'\<close>
  of nodes such that the walk from head to tail visits exactly \<open>as'\<close>, the index has as
  many entries as the queue has nodes, the pointer of each index entry is a node of the
  queue and carries the entry's key, and the expirations along the queue do not decrease.
  Every sequence of \<open>Set\<close> calls on a new cache returns and ends in such a state. The
  operations are \<open>Set\<close>, \<open>Swap\<close>, \<open>Delete\<close>, \<open>GetAndDelete\<close>, \<open>Update\<close>,
  \<open>Refresh\<close>, \<open>Evict\<close> and the ticker.
\<close>

theorem invariants_hold_after_operations:
  fixes c :: "('k, 'v::zero) Cache"
  shows "(inv c as \<and> run ops c = Some (Return () c')
            \<longrightarrow> (\<exists>as'. inv c' as' \<and> Len c' = length as'
                  \<and> Range_keys [] (head c') c' = Some (queue_keys c' as')
                  \<and> (\<forall>k v. cache c' k = Some v \<longrightarrow>
                        Ptr v \<in> set as' \<and> Key (heap c' (Ptr v)) = k)
                  \<and> sorted (expirations c' as')))
       \<and> ((\<forall>x \<in> set ops. is_Set (snd x))
            \<longrightarrow> (\<exists>c'' as'. run ops (New :: ('k, 'v) Cache) = Some (Return () c'')
                  \<and> inv c'' as' \<and> Len c'' = length as'
                  \<and> Range_keys [] (head c'') c'' = Some (queue_keys c'' as')
                  \<and> (\<forall>k v. cache c'' k = Some v \<longrightarrow>
                        Ptr v \<in> set as' \<and> Key (heap c'' (Ptr v)) = k)
                  \<and> sorted (expirations c'' as')))"
proof -
  have spelled: "inv s bs \<and> Len s = length bs
      \<and> Range_keys [] (head s) s = Some (queue_keys s bs)
      \<and> (\<forall>k v. cache s k = Some v \<longrightarrow> Ptr v \<in> set bs \<and> Key (heap s (Ptr v)) = k)
      \<and> sorted (expirations s bs)"
    if "inv s bs" for s :: "('k, 'v) Cache" and bs
    using that inv_Len[OF that] Range_keys_inv[OF that] inv_lookup[OF that]
    by (simp add: inv_def)
  show ?thesis
  proof (intro conjI impI)
    assume "inv c as \<and> run ops c = Some (Return () c')"
    then obtain as' where "inv c' as'" using run_inv by blast
    from spelled[OF this]
    show "\<exists>as'. inv c' as' \<and> Len c' = length as'
           \<and> Range_keys [] (head c') c' = Some (queue_keys c' as')
           \<and> (\<forall>k v. cache c' k = Some v \<longrightarrow> Ptr v \<in> set as' \<and> Key (heap c' (Ptr v)) = k)
           \<and> sorted (expirations c' as')"
      by blast
  next
    assume sets: "\<forall>x \<in> set ops. is_Set (snd x)"
    from run_Sets[OF inv_New sets] obtain c'' :: "('k, 'v) Cache"
      where r: "run ops New = Some (Return () c'')" by blast
    from run_inv[OF inv_New r] obtain as' where "inv c'' as'" by blast
    from spelled[OF this] r
    show "\<exists>c'' as'. run ops (New :: ('k, 'v) Cache) = Some (Return () c'')
           \<and> inv c'' as' \<and> Len c'' = length as'
           \<and> Range_keys [] (head c'') c'' = Some (queue_keys c'' as')
           \<and> (\<forall>k v. cache c'' k = Some v \<longrightarrow> Ptr v \<in> set as' \<and> Key (heap c'' (Ptr v)) = k)
           \<and> sorted (expirations c'' as')"
      by blast
  qed
qed

theorem invariants_hold_after_operations_witness:
  "inv (New :: (string, int) Cache) []
   \<and> run [(0, OpSet ''a'' 7 100), (0, OpSet ''b'' 8 300)] New = Some (Return () two_entries)
   \<and> (\<exists>as'. inv two_entries as' \<and> Len two_entries = length as'
          \<and> Range_keys [] (head two_entries) two_entries = Some (queue_keys two_entries as')
          \<and> sorted (expirations two_entries as'))
   \<and> is_Set (OpSet ''a'' (7::int) 100) \<and> is_Set (OpSet ''b'' (8::int) 300)
   \<and> (\<exists>c'' as'. run [(0, OpSet ''a'' 7 100), (0, OpSet ''b'' 8 300)] (New :: (string, int) Cache)
                    = Some (Return () c'')
         \<and> inv c'' as' \<and> Len c'' = length as')"
proof -
  have r: "run [(0, OpSet ''a'' 7 100), (0, OpSet ''b'' 8 300)] New = Some (Return () two_entries)"
    by (simp add: Set_one_entry Set_two_entries)
  have s: "\<forall>x \<in> set [(0::int, OpSet ''a'' (7::int) 100), (0, OpSet ''b'' 8 300)]. is_Set (snd x)"
    by simp
  note h = invariants_hold_after_operations
      [of "New :: (string, int) Cache" "[]" "[(0, OpSet ''a'' 7 100), (0, OpSet ''b'' 8 300)]" two_entries]
  have "\<exists>as'. inv two_entries as' \<and> Len two_entries = length as'
          \<and> Range_keys [] (head two_entries) two_entries = Some (queue_keys two_entries as')
          \<and> sorted (expirations two_entries as')"
    using h inv_New r by blast
  moreover have "\<exists>c'' as'. run [(0, OpSet ''a'' 7 100), (0, OpSet ''b'' 8 300)] (New :: (string, int) Cache)
                    = Some (Return () c'')
         \<and> inv c'' as' \<and> Len c'' = length as'"
    using h s by blast
  ultimately show ?thesis using inv_New r by simp
qed

text \<open>
  C8. On a well-formed cache with \<open>m\<close> entries, \<open>Evict(n)\<close> returns
  \<open>min(n, m)\<close> for \<open>n \<ge> 0\<close> and 0 for negative \<open>n\<close>; it removes exactly the
  entries of the first \<open>min(n, m)\<close> nodes of the queue, none of which expires later than
  a node that stays, and keeps the rest of the index and the queue; the number of entries
  drops by the count returned.
\<close>

theorem Evict_removes_earliest:
  fixes c :: "('k, 'v) Cache"
  assumes "inv c as"
  shows "\<exists>c'. Evict n c = Return (int (min (nat n) (length as))) c'
     \<and> inv c' (drop (nat n) as)
     \<and> (\<forall>k. cache c' k = (if k \<in> set (queue_keys c (take (nat n) as)) then None else cache c k))
     \<and> Len c' = Len c - min (nat n) (length as)
     \<and> (\<forall>a \<in> set (take (nat n) as). \<forall>b \<in> set (drop (nat n) as).
            Expires (heap c a) \<le> Expires (heap c b))"
proof -
  have dm: "drop (min (nat n) (length as)) as = drop (nat n) as"
    "take (min (nat n) (length as)) as = take (nat n) as"
    by (simp_all add: min_def)
  from Evict_inv[OF assms, of n]
  obtain c' where c': "Evict n c = Return (int (min (nat n) (length as))) c'"
    "inv c' (drop (nat n) as)"
    "\<forall>k. cache c' k = (if k \<in> set (queue_keys c (take (nat n) as)) then None else cache c k)"
    unfolding dm by blast
  have "Len c' = Len c - min (nat n) (length as)"
    using inv_Len[OF assms] inv_Len[OF c'(2)] by auto
  moreover have "sorted (map (\<lambda>a. Expires (heap c a)) (take (nat n) as @ drop (nat n) as))"
    using assms by (simp add: inv_def expirations_def)
  then have "\<forall>a \<in> set (take (nat n) as). \<forall>b \<in> set (drop (nat n) as).
            Expires (heap c a) \<le> Expires (heap c b)"
    unfolding map_append sorted_append by auto
  ultimately show ?thesis using c' by blast
qed

theorem Evict_removes_earliest_witness:
  "inv two_entries [0, 1]
   \<and> (\<exists>c'. Evict 1 two_entries = Return 1 c' \<and> inv c' [1] \<and> cache c' ''a'' = None
          \<and> cache c' ''b'' = cache two_entries ''b'' \<and> Len c' = Len two_entries - 1)
   \<and> (\<exists>c'. Evict 5 two_entries = Return 2 c' \<and> inv c' [] \<and> Len c' = Len two_entries - 2)
   \<and> (\<exists>c'. Evict (- 3) two_entries = Return 0 c' \<and> inv c' [0, 1])
   \<and> (\<exists>c'. Evict 4 (New :: (string, int) Cache) = Return 0 c' \<and> inv c' [])"
  using Evict_removes_earliest[OF inv_two_entries, of 1]
    Evict_removes_earliest[OF inv_two_entries, of 5]
    Evict_removes_earliest[OF inv_two_entries, of "- 3"]
    Evict_removes_earliest[OF inv_New, of 4, where ?'k = string and ?'v = int]
    inv_two_entries two_entries_simps
  by auto

text \<open>
  C9. For a present key, \<open>Swap(key, value)\<close> returns the old value and true, and changes
  nothing but the value stored for the key: the entry keeps its node, and heap, head and
  tail (positions and expirations) are as before; a following \<open>Get\<close> returns the new
  value. For an absent key it returns its own argument and false and leaves the cache
  unchanged.
\<close>

theorem Swap_replaces_value_in_place:
  fixes c :: "('k, 'v::zero) Cache"
  shows "(cache c key = Some v \<longrightarrow>
            Swap key val c
              = ((Value v, True), c\<lparr>cache := (cache c)(key \<mapsto> \<lparr>Value = val, Ptr = Ptr v\<rparr>)\<rparr>)
            \<and> Get key (snd (Swap key val c)) = (val, True)
            \<and> (inv c as \<longrightarrow> inv (snd (Swap key val c)) as)
            \<and> heap (snd (Swap key val c)) = heap c
            \<and> head (snd (Swap key val c)) = head c \<and> tail (snd (Swap key val c)) = tail c)
       \<and> (cache c key = None \<longrightarrow> Swap key val c = ((val, False), c))"
  using Swap_inv[of c as key val]
  by (auto simp: Swap_def Get_def)

theorem Swap_replaces_value_in_place_witness:
  "cache one_entry ''a'' = Some \<lparr>Value = 7, Ptr = 0\<rparr>
   \<and> Swap ''a'' 9 one_entry
       = ((7, True), one_entry\<lparr>cache := (cache one_entry)(''a'' \<mapsto> \<lparr>Value = 9, Ptr = 0\<rparr>)\<rparr>)
   \<and> Get ''a'' (snd (Swap ''a'' 9 one_entry)) = (9, True)
   \<and> inv one_entry [0] \<and> inv (snd (Swap ''a'' 9 one_entry)) [0]
   \<and> cache one_entry ''x'' = None
   \<and> Swap ''x'' 9 one_entry = ((9, False), one_entry)"
proof -
  have p: "cache one_entry ''a'' = Some \<lparr>Value = 7, Ptr = 0\<rparr>" "cache one_entry ''x'' = None"
    by (simp_all add: one_entry_simps)
  have v: "Value \<lparr>Value = 7::int, Ptr = 0\<rparr> = 7" "Ptr \<lparr>Value = 7::int, Ptr = 0\<rparr> = 0"
    by simp_all
  show ?thesis
    using Swap_replaces_value_in_place[of one_entry "''a''" "\<lparr>Value = 7, Ptr = 0\<rparr>" 9 "[0]"]
      Swap_replaces_value_in_place[of one_entry "''x''" "\<lparr>Value = 7, Ptr = 0\<rparr>" 9 "[0]"]
      inv_one_entry p
    unfolding v by blast
qed

text \<open>
  C10. \<open>Range\<close> visits the keys it copied from the queue at its start. When the callbacks
  for the keys \<open>ks1\<close> before \<open>k\<close> all asked to go on, and \<open>k\<close> is no longer in the
  index when its turn comes (the callbacks, or anyone else, deleted it meanwhile), the
  next call of the callback is for \<open>k\<close> with the zero value: the key is not skipped.
\<close>

theorem Range_calls_back_for_deleted_key:
  fixes c :: "('k, 'v::zero) Cache"
  assumes "inv c as" "queue_keys c as = ks1 @ k # ks2"
    and "continues fn ks1 c" "cache (snd (Range_visit fn ks1 c)) k = None"
  shows "\<exists>calls c'. Range fn c = Some (fst (Range_visit fn ks1 c) @ (k, 0) # calls, c')"
proof -
  have "Range fn c = Some (Range_visit fn (ks1 @ k # ks2) c)"
    using Range_keys_inv[OF assms(1)] assms(2) by (simp add: Range_def)
  moreover have "fst (Range_visit fn (k # ks2) (snd (Range_visit fn ks1 c)))
      = (k, 0) # tl (fst (Range_visit fn (k # ks2) (snd (Range_visit fn ks1 c))))"
    using assms(4) by (simp add: Let_def case_prod_beta)
  ultimately show ?thesis
    using Range_visit_append[OF assms(3), of "k # ks2"] by (metis prod.collapse)
qed

theorem Range_calls_back_for_deleted_key_witness:
  "inv two_entries [0, 1] \<and> queue_keys two_entries [0, 1] = [''a''] @ ''b'' # []
   \<and> continues drop_b [''a''] two_entries
   \<and> cache (snd (Range_visit drop_b [''a''] two_entries)) ''b'' = None
   \<and> cache two_entries ''b'' \<noteq> None
   \<and> (\<exists>calls c'. Range drop_b two_entries = Some ([(''a'', 7)] @ (''b'', 0) # calls, c'))"
proof -
  have 1: "queue_keys two_entries [0, 1] = [''a''] @ ''b'' # []"
    by (simp add: queue_keys_def two_entries_def)
  have 2: "continues drop_b [''a''] two_entries"
    by (simp add: drop_b_def)
  have 3: "Range_visit drop_b [''a''] two_entries = ([(''a'', 7)], snd (GetAndDelete ''b'' two_entries))"
    by (simp add: drop_b_def two_entries_def)
  have 4: "cache (snd (Range_visit drop_b [''a''] two_entries)) ''b'' = None"
    unfolding 3 using GetAndDelete_inv(2)[OF inv_two_entries, of "''b''"] by simp
  have 5: "cache two_entries ''b'' \<noteq> None"
    by (simp add: two_entries_simps)
  have "\<exists>calls c'. Range drop_b two_entries = Some ([(''a'', 7)] @ (''b'', 0) # calls, c')"
    using Range_calls_back_for_deleted_key[OF inv_two_entries 1 2 4]
    by (simp only: 3 fst_conv)
  then show ?thesis
    using inv_two_entries 1 2 4 5 by blast
qed

end
